theory Spec2Isabelle
  imports Complex_Main "HOL-Library.Word" "HOL-Library.Log_Nat"
begin

unbundle bit_operations_syntax

section \<open>Pour manager (pour\_manager.ino)\<close>

subsection \<open>Machine types and constants\<close>

type_synonym u8 = "8 word"
type_synonym u16 = "16 word"
type_synonym i16 = "16 word"
type_synonym u32 = "32 word"

text \<open>
  The sketch compares \<^verbatim>\<open>int16_t\<close> values with \<^verbatim>\<open>const uint16_t\<close> bounds.
  C's usual arithmetic conversions decide how: where \<^verbatim>\<open>int\<close> has 16 bits (AVR boards)
  both operands become \<^verbatim>\<open>unsigned int\<close>; where \<^verbatim>\<open>int\<close> is wider both become
  \<^verbatim>\<open>int\<close>. The flag \<open>int16\<close> selects the first reading.
\<close>

definition i16_less_u16 :: "bool \<Rightarrow> i16 \<Rightarrow> u16 \<Rightarrow> bool" where
  "i16_less_u16 int16 a b = (if int16 then a < b else sint a < uint b)"

definition i16_le_u16 :: "bool \<Rightarrow> i16 \<Rightarrow> u16 \<Rightarrow> bool" where
  "i16_le_u16 int16 a b = (if int16 then a \<le> b else sint a \<le> uint b)"

definition i16_greater_u16 :: "bool \<Rightarrow> i16 \<Rightarrow> u16 \<Rightarrow> bool" where
  "i16_greater_u16 int16 a b = (if int16 then a > b else sint a > uint b)"

definition i16_ge_u16 :: "bool \<Rightarrow> i16 \<Rightarrow> u16 \<Rightarrow> bool" where
  "i16_ge_u16 int16 a b = (if int16 then a \<ge> b else sint a \<ge> uint b)"

definition MEASURER_RANGE_LOW :: u16 where "MEASURER_RANGE_LOW = 315"
definition MEASURER_RANGE_HIGH :: u16 where "MEASURER_RANGE_HIGH = 318"
definition MEASURER_ABS_LOW :: u16 where "MEASURER_ABS_LOW = 240"
definition MEASURER_ABS_HIGH :: u16 where "MEASURER_ABS_HIGH = 650"

definition MAX_MOTOR_ON_TIME_S :: u32 where "MAX_MOTOR_ON_TIME_S = 120"
definition IDLE_DURATION_S :: u32 where "IDLE_DURATION_S = 60"
definition PRE_POUR_DURATION_S :: u32 where "PRE_POUR_DURATION_S = 180"
definition BASE_POUR_DURATION_S :: u32 where "BASE_POUR_DURATION_S = 20"
definition POST_POUR_DURATION_S :: u32 where "POST_POUR_DURATION_S = 900"
definition DESIRED_POUR_CYCLE_S :: u32 where "DESIRED_POUR_CYCLE_S = 86400"

subsection \<open>Moisture reading\<close>

text \<open>
  \<^verbatim>\<open>is_line_problem\<close> takes a fresh sample of the sensor pin (\<open>raw\<close>) and reports
  whether it lies at or outside the absolute range.
\<close>

definition is_line_problem :: "bool \<Rightarrow> i16 \<Rightarrow> bool" where
  "is_line_problem int16 raw \<longleftrightarrow>
     i16_le_u16 int16 raw MEASURER_ABS_LOW \<or> i16_ge_u16 int16 raw MEASURER_ABS_HIGH"

text \<open>
  \<^verbatim>\<open>get_humidity\<close>: the value of the capacitive filter (a library that is not part of
  the sketch) enters as \<open>filtered\<close>, already truncated to an integer as the
  \<^verbatim>\<open>return\<close> does; \<open>raw\<close> is the second sample, the one \<^verbatim>\<open>is_line_problem\<close>
  takes. The display and the delays have no effect on the value returned.
\<close>

definition get_humidity :: "bool \<Rightarrow> int \<Rightarrow> i16 \<Rightarrow> i16" where
  "get_humidity int16 filtered raw =
     (if is_line_problem int16 raw then - 1 else word_of_int filtered)"

text \<open>
  \<^verbatim>\<open>is_low_rh\<close>, with the polarity constant \<^verbatim>\<open>MEASURER_HIGH_MEANS_DRY\<close> as the
  parameter \<open>high_means_dry\<close> (the sketch sets it to true).
\<close>

definition is_low_rh :: "bool \<Rightarrow> bool \<Rightarrow> i16 \<Rightarrow> bool" where
  "is_low_rh int16 high_means_dry cur_hum \<longleftrightarrow>
     cur_hum \<noteq> - 1 \<and>
     ((high_means_dry \<and> i16_greater_u16 int16 cur_hum MEASURER_RANGE_HIGH) \<or>
      (\<not> high_means_dry \<and> i16_less_u16 int16 cur_hum MEASURER_RANGE_LOW))"

subsection \<open>Time comparison\<close>

definition ui32_gte :: "u32 \<Rightarrow> u32 \<Rightarrow> bool" where
  "ui32_gte a b \<longleftrightarrow> a \<ge> b \<or> (a < b \<and> b - a \<ge> 0x40000000)"

subsection \<open>Single-precision arithmetic\<close>

text \<open>
  The pour duration is rescaled in \<^verbatim>\<open>float\<close>. The values that occur are finite and
  not negative, so a \<^verbatim>\<open>float\<close> is modelled by the rational it denotes, and every
  operation by the exact result rounded to 24 significant bits, to nearest, ties to
  even (IEEE 754 binary32; the exponent range is not reached by 32-bit operands).
\<close>

definition pow2 :: "int \<Rightarrow> rat" where
  "pow2 e = (if 0 \<le> e then 2 ^ nat e else 1 / 2 ^ nat (- e))"

text \<open>Round to the nearest integer, ties to the even one.\<close>

definition rne :: "rat \<Rightarrow> int" where
  "rne x =
     (let f = \<lfloor>x\<rfloor>; r = x - of_int f in
      if r < 1 / 2 then f else if 1 / 2 < r then f + 1 else if even f then f else f + 1)"

text \<open>The binary exponent of a positive rational: \<open>2 ^ e \<le> x < 2 ^ (e + 1)\<close>.\<close>

definition f32_exponent :: "rat \<Rightarrow> int" where
  "f32_exponent x =
     (if 1 \<le> x then bitlen \<lfloor>x\<rfloor> - 1 else - bitlen (\<lceil>1 / x\<rceil> - 1))"

definition f32_round :: "rat \<Rightarrow> rat" where
  "f32_round x =
     (if x \<le> 0 then 0
      else let e = f32_exponent x - 23 in of_int (rne (x / pow2 e)) * pow2 e)"

definition f32_of_u32 :: "u32 \<Rightarrow> rat" where
  "f32_of_u32 w = f32_round (of_nat (unat w))"

definition f32_div :: "rat \<Rightarrow> rat \<Rightarrow> rat" where
  "f32_div a b = f32_round (a / b)"

definition f32_mul :: "rat \<Rightarrow> rat \<Rightarrow> rat" where
  "f32_mul a b = f32_round (a * b)"

text \<open>
  Conversion to \<^verbatim>\<open>uint32_t\<close> drops the fraction; C leaves it undefined when the
  value does not fit, which is \<open>None\<close> here.
\<close>

definition u32_of_f32 :: "rat \<Rightarrow> u32 option" where
  "u32_of_f32 x = (if x < 2 ^ 32 then Some (word_of_int \<lfloor>x\<rfloor>) else None)"

subsection \<open>The controller\<close>

definition STATE_IDLE :: u8 where "STATE_IDLE = 0"
definition STATE_PRE_POUR_STAGING :: u8 where "STATE_PRE_POUR_STAGING = 1"
definition STATE_POURING :: u8 where "STATE_POURING = 2"

text \<open>
  The globals of the sketch. Modelled from the spec: the relay \<^verbatim>\<open>c_switch motor\<close>
  comes from \<^verbatim>\<open>me_switch.h\<close>, which is not part of the sketch; it is the flag
  \<open>motor_is_on\<close>, read by \<^verbatim>\<open>is_on\<close> and \<^verbatim>\<open>is_off\<close> and set by
  \<^verbatim>\<open>switch_on\<close> and \<^verbatim>\<open>switch_off\<close>.
\<close>

record pour_manager =
  state :: u8
  next_state_update_time :: u32
  last_motor_off_moment :: u32
  pour_duration_ms :: u32
  motor_is_on :: bool

text \<open>The values the globals are initialised with; \<open>boot\<close> is \<^verbatim>\<open>millis()\<close> then.\<close>

definition initial_pour_manager :: "u32 \<Rightarrow> pour_manager" where
  "initial_pour_manager boot =
     \<lparr>state = STATE_IDLE, next_state_update_time = boot, last_motor_off_moment = 0,
      pour_duration_ms = BASE_POUR_DURATION_S * 1000, motor_is_on = False\<rparr>"

definition motor_on :: "pour_manager \<Rightarrow> pour_manager" where
  "motor_on s = (if \<not> motor_is_on s then s\<lparr>motor_is_on := True\<rparr> else s)"

definition motor_off :: "pour_manager \<Rightarrow> pour_manager" where
  "motor_off s = (if motor_is_on s then s\<lparr>motor_is_on := False\<rparr> else s)"

text \<open>
  The rescaling statement of \<^verbatim>\<open>loop\<close>:
  \<^verbatim>\<open>pour_duration_ms * ((float)(DESIRED_POUR_CYCLE_S * 1000) / (cur_time - last_motor_off_moment))\<close>,
  stored back into a \<^verbatim>\<open>uint32_t\<close>. \<open>cycle\<close> is the difference of the two
  timestamps. A zero divisor gives an infinity (or a NaN), whose conversion is
  undefined as well.
\<close>

definition rescale_pour_duration :: "u32 \<Rightarrow> u32 \<Rightarrow> u32 option" where
  "rescale_pour_duration pour_duration cycle =
     (if cycle = 0 then None
      else u32_of_f32
        (f32_mul (f32_of_u32 pour_duration)
          (f32_div (f32_of_u32 (DESIRED_POUR_CYCLE_S * 1000)) (f32_of_u32 cycle))))"

text \<open>
  One pass of \<^verbatim>\<open>loop\<close>, given what \<^verbatim>\<open>millis()\<close> and \<^verbatim>\<open>get_humidity()\<close>
  returned. \<open>None\<close> stands for undefined behaviour in the rescaling.
\<close>

definition loop :: "bool \<Rightarrow> bool \<Rightarrow> u32 \<Rightarrow> i16 \<Rightarrow> pour_manager \<Rightarrow> pour_manager option" where
  "loop int16 high_means_dry cur_time cur_hum s =
     (let is_time_to_update = ui32_gte cur_time (next_state_update_time s) in
      if is_time_to_update then
        if state s = STATE_IDLE then
          if is_low_rh int16 high_means_dry cur_hum then
            Some (s\<lparr>state := STATE_PRE_POUR_STAGING,
                    next_state_update_time := cur_time + PRE_POUR_DURATION_S * 1000\<rparr>)
          else
            Some (s\<lparr>next_state_update_time := cur_time + IDLE_DURATION_S * 1000\<rparr>)
        else if state s = STATE_PRE_POUR_STAGING then
          if is_low_rh int16 high_means_dry cur_hum then
            let s1 = motor_on (s\<lparr>state := STATE_POURING\<rparr>) in
            if last_motor_off_moment s1 \<noteq> 0 then
              case rescale_pour_duration (pour_duration_ms s1)
                     (cur_time - last_motor_off_moment s1) of
                None \<Rightarrow> None
              | Some d \<Rightarrow>
                  let s2 = s1\<lparr>pour_duration_ms := min d (MAX_MOTOR_ON_TIME_S * 1000)\<rparr> in
                  Some (s2\<lparr>next_state_update_time := cur_time + pour_duration_ms s2\<rparr>)
            else
              Some (s1\<lparr>next_state_update_time := cur_time + pour_duration_ms s1\<rparr>)
          else
            Some (s\<lparr>state := STATE_IDLE,
                    next_state_update_time := cur_time + IDLE_DURATION_S * 1000\<rparr>)
        else if state s = STATE_POURING then
          let s1 = motor_off s in
          Some (s1\<lparr>last_motor_off_moment := cur_time, state := STATE_IDLE,
                   next_state_update_time := cur_time + POST_POUR_DURATION_S * 1000\<rparr>)
        else Some s
      else Some s)"

subsection \<open>The rescaling, for comparison\<close>

text \<open>
  The rescaling as the specification words it: the previous duration times the ratio of
  the target cycle to the observed cycle, in exact arithmetic, cut to whole
  milliseconds and clamped to the ceiling.
\<close>

definition spec_pour_duration :: "nat \<Rightarrow> nat \<Rightarrow> nat \<Rightarrow> nat \<Rightarrow> int" where
  "spec_pour_duration previous target observed limit =
     min \<lfloor>(of_nat previous * of_nat target / of_nat observed :: rat)\<rfloor> (int limit)"

text \<open>The single-precision product of \<open>rescale_pour_duration\<close>, before the conversion.\<close>

definition rescaled_f32 :: "u32 \<Rightarrow> u32 \<Rightarrow> rat" where
  "rescaled_f32 pour_duration cycle =
     f32_mul (f32_of_u32 pour_duration)
       (f32_div (f32_of_u32 (DESIRED_POUR_CYCLE_S * 1000)) (f32_of_u32 cycle))"

section \<open>Motor board link (Motors.cpp)\<close>

subsection \<open>The serial channel and the clock\<close>

text \<open>
  The state the functions of \<^verbatim>\<open>Motors.cpp\<close> work on: the clock behind
  \<^verbatim>\<open>millis()\<close> (in ms, not wrapped), the bytes the motor board sends, each with the
  time it reaches the receive buffer, in order of arrival, the bytes written to the
  board, and the static \<^verbatim>\<open>TimePerCharacter_Ms\<close>. Time passes in \<^verbatim>\<open>delay\<close> only.
  The receive buffer of the serial library is taken to be large enough.
\<close>

record motor_link =
  now_ms :: nat
  rx :: "(nat \<times> u8) list"
  tx :: "u8 list"
  TimePerCharacter_Ms :: u8

definition Motorboard_PrintHelpMaxTime_Ms :: u16 where
  "Motorboard_PrintHelpMaxTime_Ms = 4000"

definition millis :: "motor_link \<Rightarrow> u32" where
  "millis w = of_nat (now_ms w)"

definition delay :: "nat \<Rightarrow> motor_link \<Rightarrow> motor_link" where
  "delay ms w = w\<lparr>now_ms := now_ms w + ms\<rparr>"

text \<open>\<^verbatim>\<open>SoftwareSerial_.available()\<close>: the number of bytes that have arrived.\<close>

definition serial_available :: "motor_link \<Rightarrow> nat" where
  "serial_available w = length (takeWhile (\<lambda>(t, b). t \<le> now_ms w) (rx w))"

text \<open>\<^verbatim>\<open>SoftwareSerial_.read()\<close>: the next byte, or -1 when none has arrived.\<close>

definition serial_read :: "motor_link \<Rightarrow> u8 \<times> motor_link" where
  "serial_read w =
     (case rx w of
        [] \<Rightarrow> (- 1, w)
      | (t, b) # rest \<Rightarrow> if t \<le> now_ms w then (b, w\<lparr>rx := rest\<rparr>) else (- 1, w))"

definition serial_write :: "u8 list \<Rightarrow> motor_link \<Rightarrow> motor_link" where
  "serial_write bytes w = w\<lparr>tx := tx w @ bytes\<rparr>"

definition GetTimePassed_Ms :: "u32 \<Rightarrow> u32 \<Rightarrow> motor_link \<Rightarrow> u32" where
  "GetTimePassed_Ms StartTime_Ms EndTime_Ms w =
     (let EndTime_Ms = (if EndTime_Ms = 0 then millis w else EndTime_Ms)
      in EndTime_Ms - StartTime_Ms)"

subsection \<open>Waiting for the ready signal\<close>

text \<open>
  The \<^verbatim>\<open>while\<close> loop of \<^verbatim>\<open>WaitForReadySignal\<close>. \<open>Chars\<close> is the array
  \<^verbatim>\<open>Chars[3]\<close> as \<open>(Chars[0], Chars[1], Chars[2])\<close>; 10 is the newline and 71 is
  \<^verbatim>\<open>'G'\<close>. With \<^verbatim>\<open>TimePerCharacter_Ms = 0\<close> the modelled clock stands still and the
  loop may not end, which is the value \<open>None\<close>.
\<close>

partial_function (option) WaitLoop ::
  "u16 \<Rightarrow> u32 \<Rightarrow> u8 \<times> u8 \<times> u8 \<Rightarrow> motor_link \<Rightarrow> (bool \<times> motor_link) option" where
  "WaitLoop Timeout_Ms StartTime_Ms Chars w =
     (if GetTimePassed_Ms StartTime_Ms 0 w < ucast Timeout_Ms then
        if serial_available w \<noteq> 0 then
          let (Chars0, Chars1, Chars2) = Chars;
              Chars2 = Chars1;
              Chars1 = Chars0;
              (Chars0, w) = serial_read w
          in
            if Chars2 = 10 \<and> Chars1 = 71 \<and> Chars0 = 10 then
              let w = delay (unat (TimePerCharacter_Ms w)) w in
              if serial_available w = 0 then Some (True, w)
              else WaitLoop Timeout_Ms StartTime_Ms (Chars0, Chars1, Chars2)
                     (delay (unat (TimePerCharacter_Ms w)) w)
            else WaitLoop Timeout_Ms StartTime_Ms (Chars0, Chars1, Chars2)
                   (delay (unat (TimePerCharacter_Ms w)) w)
        else WaitLoop Timeout_Ms StartTime_Ms Chars (delay (unat (TimePerCharacter_Ms w)) w)
      else Some (False, w))"

definition WaitForReadySignal :: "u16 \<Rightarrow> motor_link \<Rightarrow> (bool \<times> motor_link) option" where
  "WaitForReadySignal Timeout_Ms w = WaitLoop Timeout_Ms (millis w) (0, 0, 0) w"

subsection \<open>Sending commands\<close>

definition SendCommand :: "u8 list \<Rightarrow> u16 \<Rightarrow> motor_link \<Rightarrow> (bool \<times> motor_link) option" where
  "SendCommand Commands Timeout_Ms w =
     (if serial_available w \<noteq> 0 then
        case WaitForReadySignal Motorboard_PrintHelpMaxTime_Ms w of
          None \<Rightarrow> None
        | Some (ready, w1) \<Rightarrow>
            if \<not> ready then Some (False, w1)
            else WaitForReadySignal Timeout_Ms (serial_write Commands w1)
      else WaitForReadySignal Timeout_Ms (serial_write Commands w))"

text \<open>\<^verbatim>\<open>SendCommand_Time_Ms\<close> calls \<^verbatim>\<open>SendCommand\<close> with its default timeout, 5000 ms.\<close>

definition SendCommand_Time_Ms ::
  "u8 list \<Rightarrow> motor_link \<Rightarrow> ((bool \<times> u32) \<times> motor_link) option" where
  "SendCommand_Time_Ms Command w =
     (let StartTime_Ms = millis w in
      case SendCommand Command 5000 w of
        None \<Rightarrow> None
      | Some (SendCommandResult, w1) \<Rightarrow>
          Some ((SendCommandResult, GetTimePassed_Ms StartTime_Ms 0 w1), w1))"

definition TestConnection :: "motor_link \<Rightarrow> (bool \<times> motor_link) option" where
  "TestConnection w =
     (let TestCommandTimeout_Ms = 3 * ucast (TimePerCharacter_Ms w) + 10
      in SendCommand [32] TestCommandTimeout_Ms w)"

subsection \<open>Ping measurement\<close>

text \<open>An integer division by zero is undefined in C++; it is the fault below.\<close>

datatype fault = DivisionByZero

lemma u8_counter_step:
  fixes d n :: u8
  assumes "d < n"
  shows "unat n - unat (d + 1) < unat n - unat d"
proof -
  have lt: "unat d < unat n" using assms by (simp add: word_less_nat_alt)
  moreover have "unat n < 256" using unsigned_less [of n, where 'a = nat] by simp
  ultimately have "unat (d + 1) = unat d + 1"
    by (simp add: unat_word_ariths)
  with lt show ?thesis by simp
qed

text \<open>
  The \<^verbatim>\<open>for\<close> loop of \<^verbatim>\<open>DetectPing_Ms\<close>; it returns the counter, the time summed up
  and the channel. The command is the one-character string \<^verbatim>\<open>" "\<close>.
\<close>

function DetectPing_loop ::
  "u8 \<Rightarrow> u8 \<Rightarrow> u32 \<Rightarrow> motor_link \<Rightarrow> (u8 \<times> u32 \<times> motor_link) option" where
  "DetectPing_loop NumMeasurements NumMeasurementsDone TimePassed_Ms w =
     (if NumMeasurementsDone < NumMeasurements then
        case SendCommand_Time_Ms [32] w of
          None \<Rightarrow> None
        | Some ((IsSent, SendCommand_Duration_Ms), w1) \<Rightarrow>
            if \<not> IsSent then Some (NumMeasurementsDone, TimePassed_Ms, w1)
            else DetectPing_loop NumMeasurements (NumMeasurementsDone + 1)
                   (TimePassed_Ms + SendCommand_Duration_Ms) w1
      else Some (NumMeasurementsDone, TimePassed_Ms, w))"
  by pat_completeness auto
termination
  by (relation "measure (\<lambda>(n, d, t, w). unat n - unat d)") (simp_all add: u8_counter_step)

definition DetectPing_Ms :: "u8 \<Rightarrow> motor_link \<Rightarrow> ((fault + u16) \<times> motor_link) option" where
  "DetectPing_Ms NumMeasurements w =
     (case DetectPing_loop NumMeasurements 0 0 w of
        None \<Rightarrow> None
      | Some (NumMeasurementsDone, TimePassed_Ms, w1) \<Rightarrow>
          if NumMeasurementsDone = 0 then Some (Inl DivisionByZero, w1)
          else Some (Inr (ucast (TimePassed_Ms div ucast NumMeasurementsDone)), w1))"

subsection \<open>Hardware self-test\<close>

definition TestDuration_Ms :: u16 where "TestDuration_Ms = 800"
definition NumCommands :: u16 where "NumCommands = 12"
definition CommandDuration_Ms :: u16 where
  "CommandDuration_Ms = TestDuration_Ms div NumCommands"
definition NumAnglesInCircle :: u16 where "NumAnglesInCircle = 360"
definition AngleIncerement :: u16 where
  "AngleIncerement = NumAnglesInCircle div NumCommands"
definition Amplitude :: u8 where "Amplitude = 100"

text \<open>Conversion of a \<^verbatim>\<open>double\<close> to an integer type drops the fraction.\<close>

definition trunc_toward_zero :: "real \<Rightarrow> int" where
  "trunc_toward_zero x = (if 0 \<le> x then \<lfloor>x\<rfloor> else \<lceil>x\<rceil>)"

text \<open>
  \<^verbatim>\<open>int8_t MotorPower_Pc = Amplitude * sin(Angle_Rad)\<close>. The sine is computed in
  floating point from a single-precision \<^verbatim>\<open>Angle_Rad\<close>; \<open>sine Angle\<close> stands for the
  value \<^verbatim>\<open>sin(Angle_Rad)\<close> has for a given \<^verbatim>\<open>Angle\<close>, and \<open>sine_accurate\<close> below says
  how close to the mathematical sine it is taken to be.
\<close>

definition MotorPower_Pc :: "(u16 \<Rightarrow> real) \<Rightarrow> u16 \<Rightarrow> int" where
  "MotorPower_Pc sine Angle = trunc_toward_zero (real (unat Amplitude) * sine Angle)"

lemma Angle_step:
  fixes Angle :: u16
  assumes "\<not> NumAnglesInCircle < Angle" and "Angle \<noteq> NumAnglesInCircle"
  shows "360 - min (unat (Angle + AngleIncerement)) 360 < 360 - min (unat Angle) 360"
proof -
  have "unat Angle \<le> 360"
    using assms(1) by (simp add: NumAnglesInCircle_def word_less_nat_alt)
  moreover have "unat Angle \<noteq> 360"
    using assms(2) by (simp add: NumAnglesInCircle_def word_unat_eq_iff)
  ultimately have lt: "unat Angle < 360" by simp
  then have "unat (Angle + AngleIncerement) = unat Angle + 30"
    by (simp add: AngleIncerement_def NumAnglesInCircle_def NumCommands_def unat_word_ariths)
  with lt show ?thesis by simp
qed

text \<open>
  The \<^verbatim>\<open>while (1)\<close> loop of \<^verbatim>\<open>HardwareMotorsTest\<close>. It yields the commands handed to
  \<^verbatim>\<open>SendCommand\<close>, in order, each as the three arguments of \<^verbatim>\<open>GenerateCommand\<close>: left
  power, right power, duration. The results of \<^verbatim>\<open>SendCommand\<close> are ignored by the code.
\<close>

function HardwareMotorsTest_loop :: "(u16 \<Rightarrow> real) \<Rightarrow> u16 \<Rightarrow> (int \<times> int \<times> u16) list" where
  "HardwareMotorsTest_loop sine Angle =
     (let Angle = (if Angle > NumAnglesInCircle then NumAnglesInCircle else Angle);
          MotorPower = MotorPower_Pc sine Angle;
          command = (MotorPower, MotorPower, CommandDuration_Ms)
      in if Angle = NumAnglesInCircle then [command]
         else command # HardwareMotorsTest_loop sine (Angle + AngleIncerement))"
  by pat_completeness auto
termination
proof (relation "measure (\<lambda>(sine, Angle). 360 - min (unat Angle) 360)")
  show "wf (measure (\<lambda>(sine :: u16 \<Rightarrow> real, Angle :: u16). 360 - min (unat Angle) 360))"
    by simp
next
  fix sine :: "u16 \<Rightarrow> real" and Angle x :: u16 and xa :: int and xb :: "int \<times> int \<times> u16"
  assume x: "x = (if NumAnglesInCircle < Angle then NumAnglesInCircle else Angle)"
    and "x \<noteq> NumAnglesInCircle"
  then have "\<not> NumAnglesInCircle < Angle" "Angle \<noteq> NumAnglesInCircle" "x = Angle"
    by (auto split: if_splits)
  then show "((sine, x + AngleIncerement), sine, Angle)
      \<in> measure (\<lambda>(sine, Angle). 360 - min (unat Angle) 360)"
    using Angle_step [of Angle] by simp
qed

declare HardwareMotorsTest_loop.simps [simp del]

definition HardwareMotorsTest :: "(u16 \<Rightarrow> real) \<Rightarrow> (int \<times> int \<times> u16) list" where
  "HardwareMotorsTest sine = HardwareMotorsTest_loop sine 0"

text \<open>The angle in radians, exactly, and the mathematical sine of it.\<close>

definition Angle_Rad :: "u16 \<Rightarrow> real" where
  "Angle_Rad Angle = real (unat Angle) / real (unat NumAnglesInCircle) * (2 * pi)"

definition exact_sine :: "u16 \<Rightarrow> real" where
  "exact_sine Angle = sin (Angle_Rad Angle)"

text \<open>
  The computed sine is within a thousandth of the mathematical one (single precision
  is accurate to about one part in ten million).
\<close>

definition sine_accurate :: "(u16 \<Rightarrow> real) \<Rightarrow> bool" where
  "sine_accurate sine \<longleftrightarrow> (\<forall>Angle. \<bar>sine Angle - sin (Angle_Rad Angle)\<bar> \<le> 1 / 1000)"

text \<open>
  A sine that falls short of the mathematical one by a millionth of its value, as a
  rounded result may: with it a power that would be a whole number is cut to the next
  one towards zero.
\<close>

definition short_sine :: "u16 \<Rightarrow> real" where
  "short_sine Angle = (1 - 1 / 2 ^ 20) * sin (Angle_Rad Angle)"

subsection \<open>Notions used in the proofs\<close>

text \<open>Whether a byte sequence contains the sentinel: newline, \<^verbatim>\<open>'G'\<close>, newline.\<close>

fun has_sentinel :: "u8 list \<Rightarrow> bool" where
  "has_sentinel (a # b # c # rest) \<longleftrightarrow>
     (a = 10 \<and> b = 71 \<and> c = 10) \<or> has_sentinel (b # c # rest)"
| "has_sentinel _ \<longleftrightarrow> False"

text \<open>The loop condition, the time waited so far, and one \<^verbatim>\<open>delay(TimePerCharacter_Ms)\<close>.\<close>

definition running :: "u16 \<Rightarrow> u32 \<Rightarrow> motor_link \<Rightarrow> bool" where
  "running T s w \<longleftrightarrow> GetTimePassed_Ms s 0 w < ucast T"

definition elapsed :: "u32 \<Rightarrow> motor_link \<Rightarrow> nat" where
  "elapsed s w = unat (GetTimePassed_Ms s 0 w)"

definition tick :: "motor_link \<Rightarrow> motor_link" where
  "tick w = delay (unat (TimePerCharacter_Ms w)) w"

text \<open>
  A time by which the wait has read \<open>n\<close> bytes that have all arrived by the time \<open>L\<close>:
  it reads at once when they are there already, and otherwise sees the last of them at
  most one delay after \<open>L\<close>; a byte costs it at most two delays.
\<close>

definition caught_up :: "nat \<Rightarrow> nat \<Rightarrow> motor_link \<Rightarrow> nat" where
  "caught_up L n w =
     (if L \<le> now_ms w then now_ms w else L + unat (TimePerCharacter_Ms w))
     + 2 * unat (TimePerCharacter_Ms w) * n"

text \<open>
  What a wait started with window \<open>c\<close> in \<open>w\<close> guarantees when it returns \<open>b\<close> in
  \<open>w'\<close>: nothing is written, bytes are only taken from the front of the stream, a
  success comes with the sentinel as the last three bytes seen and with nothing
  available, a failure with the timeout reached, and less than two delays pass beyond
  the timeout.
\<close>

definition wait_post ::
  "u16 \<Rightarrow> u32 \<Rightarrow> u8 \<times> u8 \<times> u8 \<Rightarrow> motor_link \<Rightarrow> bool \<Rightarrow> motor_link \<Rightarrow> bool" where
  "wait_post T s c w b w' \<longleftrightarrow>
     tx w' = tx w \<and> TimePerCharacter_Ms w' = TimePerCharacter_Ms w \<and>
     now_ms w \<le> now_ms w' \<and>
     (\<exists>pre. rx w = pre @ rx w' \<and>
        (b \<longrightarrow> (\<exists>ys. [snd (snd c), fst (snd c), fst c] @ map snd pre = ys @ [10, 71, 10]))) \<and>
     (b \<longrightarrow> serial_available w' = 0) \<and>
     (\<not> b \<longrightarrow> \<not> running T s w') \<and>
     (if running T s w
      then now_ms w' + elapsed s w < now_ms w + unat T + 2 * unat (TimePerCharacter_Ms w)
      else w' = w \<and> \<not> b)"

section \<open>Properties of the pour manager\<close>

text \<open>
  C1. A reading flagged as a line fault (the sample that \<^verbatim>\<open>is_line_problem\<close> takes is
  at or outside the absolute range, so \<^verbatim>\<open>get_humidity\<close> returns -1) is never dry:
  \<^verbatim>\<open>is_low_rh\<close> is false on it, whatever the filter's value, for either polarity.
\<close>

theorem line_fault_is_never_low_rh:
  "is_line_problem int16 raw \<Longrightarrow>
   get_humidity int16 filtered raw = - 1 \<and>
   \<not> is_low_rh int16 high_means_dry (get_humidity int16 filtered raw)"
  by (simp add: get_humidity_def is_low_rh_def)

theorem line_fault_is_never_low_rh_witness:
  "is_line_problem True 700 \<and> get_humidity True 400 700 = - 1
   \<and> \<not> is_low_rh True True (get_humidity True 400 700)
   \<and> \<not> is_low_rh True False (get_humidity True 400 700)"
proof -
  have h: "is_line_problem True 700"
    by (simp add: is_line_problem_def i16_le_u16_def i16_ge_u16_def
        MEASURER_ABS_LOW_def MEASURER_ABS_HIGH_def)
  show ?thesis
    using h line_fault_is_never_low_rh [OF h, of 400 True]
      line_fault_is_never_low_rh [OF h, of 400 False]
    by (simp add: is_low_rh_def)
qed

text \<open>
  C3. \<^verbatim>\<open>ui32_gte\<close> is not safe when the deadline, not the clock, has wrapped. An idle
  deadline scheduled at 4294950000 ms is \<open>4294950000 + 60000\<close>, which wraps to 42704.
  At the next pass, 10 s later, the clock reads 4294960000 and the deadline lies
  50000 ms ahead, yet \<^verbatim>\<open>ui32_gte\<close> reports it as reached, since its first disjunct
  compares the two numbers as they stand.
\<close>

theorem ui32_gte_early_on_wrapped_deadline:
  "ui32_gte 4294960000 (4294950000 + IDLE_DURATION_S * 1000) \<and>
   4294950000 + IDLE_DURATION_S * 1000 = (42704 :: u32) \<and>
   (4294950000 + IDLE_DURATION_S * 1000) - 4294960000 = (50000 :: u32)"
  by (simp add: ui32_gte_def IDLE_DURATION_S_def)

text \<open>A pass before the deadline changes nothing.\<close>

lemma loop_not_due:
  "\<not> ui32_gte cur_time (next_state_update_time s) \<Longrightarrow>
   loop int16 high_means_dry cur_time cur_hum s = Some s"
  by (simp add: loop_def)

text \<open>The two switch operations, field by field.\<close>

lemma motor_on_fields [simp]:
  "motor_is_on (motor_on s)"
  "state (motor_on s) = state s"
  "next_state_update_time (motor_on s) = next_state_update_time s"
  "last_motor_off_moment (motor_on s) = last_motor_off_moment s"
  "pour_duration_ms (motor_on s) = pour_duration_ms s"
  by (simp_all add: motor_on_def)

lemma motor_off_fields [simp]:
  "\<not> motor_is_on (motor_off s)"
  "state (motor_off s) = state s"
  "next_state_update_time (motor_off s) = next_state_update_time s"
  "last_motor_off_moment (motor_off s) = last_motor_off_moment s"
  "pour_duration_ms (motor_off s) = pour_duration_ms s"
  by (simp_all add: motor_off_def)

lemma STATE_distinct [simp]:
  "STATE_PRE_POUR_STAGING \<noteq> STATE_IDLE" "STATE_POURING \<noteq> STATE_IDLE"
  "STATE_POURING \<noteq> STATE_PRE_POUR_STAGING"
  by (simp_all add: STATE_IDLE_def STATE_PRE_POUR_STAGING_def STATE_POURING_def)

text \<open>The pass that leaves PreStaging for Pouring.\<close>

lemma loop_staging_dry:
  assumes "state s = STATE_PRE_POUR_STAGING"
    and "ui32_gte t (next_state_update_time s)"
    and "is_low_rh int16 high_means_dry hum"
    and "last_motor_off_moment s = 0 \<or>
         rescale_pour_duration (pour_duration_ms s) (t - last_motor_off_moment s) \<noteq> None"
  shows "\<exists>s'. loop int16 high_means_dry t hum s = Some s' \<and>
      state s' = STATE_POURING \<and> motor_is_on s' \<and>
      next_state_update_time s' = t + pour_duration_ms s' \<and>
      last_motor_off_moment s' = last_motor_off_moment s \<and>
      pour_duration_ms s' =
        (if last_motor_off_moment s = 0 then pour_duration_ms s
         else min (the (rescale_pour_duration (pour_duration_ms s)
                (t - last_motor_off_moment s))) (MAX_MOTOR_ON_TIME_S * 1000))"
proof (cases "last_motor_off_moment s = 0")
  case True
  with assms(1-3) show ?thesis
    by (simp add: loop_def Let_def)
next
  case False
  with assms(4) obtain d where
    "rescale_pour_duration (pour_duration_ms s) (t - last_motor_off_moment s) = Some d"
    by auto
  with False assms(1-3) show ?thesis
    by (simp add: loop_def Let_def)
qed

text \<open>
  C4. The watering cycle. From Idle, a pass at or after the idle deadline with a dry
  reading enters PreStaging, due \<^verbatim>\<open>PRE_POUR_DURATION_S\<close> later. A pass at or after that
  deadline with a dry reading enters Pouring with the motor on, due one pour duration
  later (the pass is defined when no pour has ended yet, or when the rescaled duration
  fits). Any pass at or after the pour deadline switches the motor off, records the
  current time in \<^verbatim>\<open>last_motor_off_moment\<close> and returns to Idle, due
  \<^verbatim>\<open>POST_POUR_DURATION_S\<close> later.
\<close>

theorem dry_cycle_idle_staging_pouring_idle:
  assumes "state s0 = STATE_IDLE"
    and "ui32_gte t1 (next_state_update_time s0)"
    and "is_low_rh int16 high_means_dry hum1"
    and "ui32_gte t2 (t1 + PRE_POUR_DURATION_S * 1000)"
    and "is_low_rh int16 high_means_dry hum2"
    and "last_motor_off_moment s0 = 0 \<or>
         rescale_pour_duration (pour_duration_ms s0) (t2 - last_motor_off_moment s0) \<noteq> None"
  shows "\<exists>s1 s2.
      loop int16 high_means_dry t1 hum1 s0 = Some s1 \<and>
      state s1 = STATE_PRE_POUR_STAGING \<and>
      next_state_update_time s1 = t1 + PRE_POUR_DURATION_S * 1000 \<and>
      loop int16 high_means_dry t2 hum2 s1 = Some s2 \<and>
      state s2 = STATE_POURING \<and> motor_is_on s2 \<and>
      next_state_update_time s2 = t2 + pour_duration_ms s2 \<and>
      (\<forall>t3 hum3. ui32_gte t3 (next_state_update_time s2) \<longrightarrow>
        (\<exists>s3. loop int16 high_means_dry t3 hum3 s2 = Some s3 \<and>
          \<not> motor_is_on s3 \<and> last_motor_off_moment s3 = t3 \<and>
          state s3 = STATE_IDLE \<and>
          next_state_update_time s3 = t3 + POST_POUR_DURATION_S * 1000))"
proof -
  let ?s1 = "s0\<lparr>state := STATE_PRE_POUR_STAGING,
                 next_state_update_time := t1 + PRE_POUR_DURATION_S * 1000\<rparr>"
  have step1: "loop int16 high_means_dry t1 hum1 s0 = Some ?s1"
    using assms(1-3) by (simp add: loop_def)
  have pre: "state ?s1 = STATE_PRE_POUR_STAGING"
    by simp
  have "last_motor_off_moment ?s1 = 0 \<or>
      rescale_pour_duration (pour_duration_ms ?s1) (t2 - last_motor_off_moment ?s1) \<noteq> None"
    using assms(6) by simp
  with pre assms(4,5)
  obtain s2 where step2: "loop int16 high_means_dry t2 hum2 ?s1 = Some s2"
    and pouring: "state s2 = STATE_POURING" "motor_is_on s2"
      "next_state_update_time s2 = t2 + pour_duration_ms s2"
    using loop_staging_dry [of ?s1 t2 int16 high_means_dry hum2] by auto
  have step3: "\<exists>s3. loop int16 high_means_dry t3 hum3 s2 = Some s3 \<and>
          \<not> motor_is_on s3 \<and> last_motor_off_moment s3 = t3 \<and>
          state s3 = STATE_IDLE \<and>
          next_state_update_time s3 = t3 + POST_POUR_DURATION_S * 1000"
    if "ui32_gte t3 (next_state_update_time s2)" for t3 hum3
    using that pouring(1) by (simp add: loop_def Let_def)
  from step1 step2 pouring step3 show ?thesis
    by (intro exI [of _ ?s1] exI [of _ s2]) simp
qed

theorem dry_cycle_idle_staging_pouring_idle_witness:
  "state (initial_pour_manager 0) = STATE_IDLE \<and>
   ui32_gte 0 (next_state_update_time (initial_pour_manager 0)) \<and>
   is_low_rh True True 400 \<and>
   ui32_gte 180000 (0 + PRE_POUR_DURATION_S * 1000) \<and>
   last_motor_off_moment (initial_pour_manager 0) = 0 \<and>
   (\<exists>s1 s2.
      loop True True 0 400 (initial_pour_manager 0) = Some s1 \<and>
      state s1 = STATE_PRE_POUR_STAGING \<and>
      next_state_update_time s1 = 0 + PRE_POUR_DURATION_S * 1000 \<and>
      loop True True 180000 400 s1 = Some s2 \<and>
      state s2 = STATE_POURING \<and> motor_is_on s2 \<and>
      next_state_update_time s2 = 180000 + pour_duration_ms s2 \<and>
      (\<forall>t3 hum3. ui32_gte t3 (next_state_update_time s2) \<longrightarrow>
        (\<exists>s3. loop True True t3 hum3 s2 = Some s3 \<and>
          \<not> motor_is_on s3 \<and> last_motor_off_moment s3 = t3 \<and>
          state s3 = STATE_IDLE \<and>
          next_state_update_time s3 = t3 + POST_POUR_DURATION_S * 1000)))"
proof -
  have h1: "state (initial_pour_manager 0) = STATE_IDLE"
    by (simp add: initial_pour_manager_def)
  have h2: "ui32_gte 0 (next_state_update_time (initial_pour_manager 0))"
    by (simp add: initial_pour_manager_def ui32_gte_def)
  have h3: "is_low_rh True True 400"
    by (simp add: is_low_rh_def i16_greater_u16_def MEASURER_RANGE_HIGH_def)
  have h4: "ui32_gte 180000 (0 + PRE_POUR_DURATION_S * 1000)"
    by (simp add: ui32_gte_def PRE_POUR_DURATION_S_def)
  have h5: "last_motor_off_moment (initial_pour_manager 0) = 0"
    by (simp add: initial_pour_manager_def)
  have h6: "last_motor_off_moment (initial_pour_manager 0) = 0 \<or>
      rescale_pour_duration (pour_duration_ms (initial_pour_manager 0))
        (180000 - last_motor_off_moment (initial_pour_manager 0)) \<noteq> None"
    using h5 by simp
  show ?thesis
    using h1 h2 h3 h4 h5 dry_cycle_idle_staging_pouring_idle [OF h1 h2 h3 h4 h3 h6]
    by simp
qed

subsection \<open>Single-precision rounding and the rescaled duration\<close>

lemma pow2_powi: "pow2 e = 2 powi e"
  by (simp add: pow2_def power_int_def power_inverse inverse_eq_divide power_one_over)

lemma pow2_pos [simp]: "0 < pow2 e"
  by (simp add: pow2_powi zero_less_power_int)

lemma pow2_nonzero [simp]: "pow2 e \<noteq> 0"
  by (metis less_irrefl pow2_pos)

lemma pow2_add: "pow2 (a + b) = pow2 a * pow2 b"
  by (simp add: pow2_powi power_int_add)

lemma pow2_nat: "0 \<le> e \<Longrightarrow> pow2 e = 2 ^ nat e"
  by (simp add: pow2_def)

lemma rne_error: "\<bar>of_int (rne x) - x\<bar> \<le> 1 / 2"
proof -
  have "0 \<le> x - of_int \<lfloor>x\<rfloor>" "x - of_int \<lfloor>x\<rfloor> < 1"
    by linarith+
  then show ?thesis
    by (auto simp add: rne_def Let_def abs_le_iff)
qed

lemma f32_exponent_bounds:
  assumes "0 < x"
  shows "pow2 (f32_exponent x) \<le> x \<and> x < pow2 (f32_exponent x + 1)"
proof (cases "1 \<le> x")
  case True
  let ?n = "\<lfloor>x\<rfloor>"
  have n: "0 < ?n" using True by simp
  from bitlen_bounds [OF n]
  have b: "2 ^ nat (bitlen ?n - 1) \<le> ?n" "?n < 2 ^ nat (bitlen ?n)" by simp_all
  have b1: "1 \<le> bitlen ?n" using n by (simp add: bitlen_alt_def)
  have "(2::rat) ^ nat (bitlen ?n - 1) \<le> of_int ?n"
    using b(1) by (metis of_int_le_iff of_int_numeral of_int_power)
  also have "\<dots> \<le> x" by simp
  finally have lo: "pow2 (bitlen ?n - 1) \<le> x"
    using b1 by (simp add: pow2_nat)
  have "?n + 1 \<le> 2 ^ nat (bitlen ?n)" using b(2) by simp
  then have "of_int (?n + 1) \<le> (2::rat) ^ nat (bitlen ?n)"
    by (metis of_int_le_iff of_int_numeral of_int_power)
  moreover have "x < of_int (?n + 1)" by linarith
  ultimately have hi: "x < pow2 (bitlen ?n)"
    using b1 by (simp add: pow2_nat)
  show ?thesis using True lo hi by (simp add: f32_exponent_def)
next
  case False
  then have x1: "x < 1" by simp
  let ?y = "1 / x"
  let ?m = "\<lceil>?y\<rceil> - 1"
  have y1: "1 < ?y" using assms x1 by simp
  have m: "0 < ?m" using y1 by (simp add: less_ceiling_iff)
  from bitlen_bounds [OF m]
  have b: "2 ^ nat (bitlen ?m - 1) \<le> ?m" "?m < 2 ^ nat (bitlen ?m)" by simp_all
  have b1: "1 \<le> bitlen ?m" using m by (simp add: bitlen_alt_def)
  have my: "of_int ?m < ?y" "?y \<le> of_int ?m + 1" by linarith+
  have "?m + 1 \<le> 2 ^ nat (bitlen ?m)" using b(2) by simp
  then have up: "of_int (?m + 1) \<le> (2::rat) ^ nat (bitlen ?m)"
    by (metis of_int_le_iff of_int_numeral of_int_power)
  have "?y \<le> of_int (?m + 1)" using my(2) by (simp only: of_int_add of_int_1)
  then have "?y \<le> 2 ^ nat (bitlen ?m)" using up by (rule order_trans)
  then have "1 \<le> x * 2 ^ nat (bitlen ?m)"
    using assms by (simp add: field_simps)
  then have lo: "pow2 (- bitlen ?m) \<le> x"
    using b1 by (simp add: pow2_def field_simps)
  have "(2::rat) ^ nat (bitlen ?m - 1) \<le> of_int ?m"
    using b(1) by (metis of_int_le_iff of_int_numeral of_int_power)
  then have "2 ^ nat (bitlen ?m - 1) < ?y" using my(1) by (rule le_less_trans)
  then have "x * 2 ^ nat (bitlen ?m - 1) < 1"
    using assms by (simp add: field_simps)
  then have hi: "x < pow2 (- bitlen ?m + 1)"
    using b1 x1 by (simp add: pow2_def field_simps nat_diff_distrib)
  show ?thesis using False lo hi by (simp add: f32_exponent_def)
qed

lemma f32_round_error:
  assumes "0 < x"
  shows "\<bar>f32_round x - x\<bar> \<le> x / 2 ^ 24"
proof -
  define e where "e = f32_exponent x - 23"
  define q where "q = x / pow2 e"
  define r :: rat where "r = of_int (rne q)"
  have scale: "pow2 (f32_exponent x) = pow2 e * 2 ^ 23"
    using pow2_add [of e 23] by (simp add: e_def pow2_nat)
  from f32_exponent_bounds [OF assms] have lo: "pow2 e * 2 ^ 23 \<le> x"
    by (simp add: scale)
  have rq: "\<bar>r - q\<bar> \<le> 1 / 2"
    unfolding r_def by (rule rne_error)
  have x_eq: "x = q * pow2 e" by (simp add: q_def)
  have fr: "f32_round x = r * pow2 e"
    using assms by (simp add: f32_round_def Let_def e_def q_def r_def)
  have "f32_round x - x = (r - q) * pow2 e"
    unfolding fr by (subst x_eq) (simp add: algebra_simps)
  then have "\<bar>f32_round x - x\<bar> = \<bar>r - q\<bar> * pow2 e"
    by (simp add: abs_mult abs_of_pos)
  also have "\<dots> \<le> 1 / 2 * pow2 e"
    using rq by (rule mult_right_mono) (rule less_imp_le, rule pow2_pos)
  also have "\<dots> \<le> x / 2 ^ 24"
    using lo by simp
  finally show ?thesis .
qed

lemma f32_round_zero [simp]: "f32_round 0 = 0"
  by (simp add: f32_round_def)

lemma f32_round_between:
  assumes "0 \<le> a" and "a \<le> x" and "x \<le> b"
  shows "a * (1 - 1 / 2 ^ 24) \<le> f32_round x \<and> f32_round x \<le> b * (1 + 1 / 2 ^ 24)"
proof (cases "x = 0")
  case True
  with assms show ?thesis by simp
next
  case False
  with assms have pos: "0 < x" by simp
  from f32_round_error [OF pos]
  have "f32_round x - x \<le> x / 2 ^ 24 \<and> - (f32_round x - x) \<le> x / 2 ^ 24"
    by (simp only: abs_le_iff)
  then have "x - x / 2 ^ 24 \<le> f32_round x" "f32_round x \<le> x + x / 2 ^ 24"
    by linarith+
  moreover have "a * (1 - 1 / 2 ^ 24) \<le> x * (1 - 1 / 2 ^ 24)"
    using assms(2) by (intro mult_right_mono) simp_all
  moreover have "x * (1 + 1 / 2 ^ 24) \<le> b * (1 + 1 / 2 ^ 24)"
    using assms(3) by (intro mult_right_mono) simp_all
  ultimately show ?thesis by (simp add: algebra_simps)
qed

lemma bitlen_numeral: "bitlen (numeral n) = bitlen (numeral n div 2) + 1"
  by (subst compute_bitlen) simp

lemma bitlen_one: "bitlen 1 = 1"
  by (subst compute_bitlen) simp

lemma floor_rat_numeral:
  "\<lfloor>(numeral a :: rat) / numeral b\<rfloor> = numeral a div numeral b"
  using floor_divide_of_int_eq [of "numeral a" "numeral b", where 'a = rat] by simp

lemma ceiling_rat_numeral:
  "\<lceil>(numeral a :: rat) / numeral b\<rceil> = - (- numeral a div numeral b)"
  using ceiling_divide_eq_div [of "numeral a" "numeral b", where 'a = rat] by simp

lemmas f32_eval = f32_of_u32_def f32_div_def f32_mul_def u32_of_f32_def f32_round_def
  f32_exponent_def rne_def pow2_def Let_def bitlen_numeral bitlen_one
  floor_rat_numeral ceiling_rat_numeral

lemma f32_target_exact: "f32_of_u32 (DESIRED_POUR_CYCLE_S * 1000) = 86400000"
  by (simp add: DESIRED_POUR_CYCLE_S_def f32_eval)

lemma rescaled_f32_bounds:
  fixes pour_duration cycle :: u32
  defines "x \<equiv> (of_nat (unat pour_duration) * 86400000 / of_nat (unat cycle) :: rat)"
  assumes "cycle \<noteq> 0"
  shows "x * (1 - 1 / 2 ^ 21) \<le> rescaled_f32 pour_duration cycle \<and>
         rescaled_f32 pour_duration cycle \<le> x * (1 + 1 / 2 ^ 21)"
proof -
  define p :: rat where "p = of_nat (unat pour_duration)"
  define c :: rat where "c = of_nat (unat cycle)"
  define lo :: rat where "lo = 1 - 1 / 2 ^ 24"
  define hi :: rat where "hi = 1 + 1 / 2 ^ 24"
  have "0 < unat cycle" using assms(2) by (simp add: unat_gt_0)
  then have c: "0 < c" unfolding c_def by (simp only: of_nat_0_less_iff)
  have p: "0 \<le> p" unfolding p_def by (simp only: of_nat_0_le_iff)
  have lohi: "0 < lo" "0 < hi" by (simp_all add: lo_def hi_def)
  have fc: "c * lo \<le> f32_of_u32 cycle" "f32_of_u32 cycle \<le> c * hi"
    using f32_round_between [of c c c] c
    by (simp_all add: f32_of_u32_def c_def lo_def hi_def)
  have fc_pos: "0 < f32_of_u32 cycle"
    using fc(1) c lohi(1) by (meson less_le_trans mult_pos_pos)
  have fp: "p * lo \<le> f32_of_u32 pour_duration" "f32_of_u32 pour_duration \<le> p * hi"
    using f32_round_between [of p p p] p
    by (simp_all add: f32_of_u32_def p_def lo_def hi_def)
  let ?q = "86400000 / f32_of_u32 cycle"
  have q: "86400000 / (c * hi) \<le> ?q" "?q \<le> 86400000 / (c * lo)"
  proof -
    show "86400000 / (c * hi) \<le> ?q"
      using fc(2) fc_pos by (intro divide_left_mono) (simp_all add: c lohi)
    show "?q \<le> 86400000 / (c * lo)"
      using fc(1) fc_pos c lohi by (intro divide_left_mono) simp_all
  qed
  have q0: "0 \<le> 86400000 / (c * hi)" using c lohi by simp
  let ?r = "f32_div 86400000 (f32_of_u32 cycle)"
  have r: "86400000 / (c * hi) * lo \<le> ?r" "?r \<le> 86400000 / (c * lo) * hi"
    using f32_round_between [OF q0 q] by (simp_all add: f32_div_def lo_def hi_def)
  have r0: "0 \<le> 86400000 / (c * hi) * lo" using q0 lohi by simp
  have fp0: "0 \<le> p * lo" using p lohi by simp
  let ?m = "f32_of_u32 pour_duration * ?r"
  have m: "p * lo * (86400000 / (c * hi) * lo) \<le> ?m"
    "?m \<le> p * hi * (86400000 / (c * lo) * hi)"
  proof -
    have "0 \<le> f32_of_u32 pour_duration" using fp0 fp(1) by linarith
    then show "p * lo * (86400000 / (c * hi) * lo) \<le> ?m"
      using fp(1) r(1) r0 by (intro mult_mono)
    have "0 \<le> ?r" using r0 r(1) by linarith
    moreover have "0 \<le> p * hi" using p lohi by simp
    ultimately show "?m \<le> p * hi * (86400000 / (c * lo) * hi)"
      using fp(2) r(2) by (intro mult_mono)
  qed
  have m0: "0 \<le> p * lo * (86400000 / (c * hi) * lo)" using fp0 r0 by (rule mult_nonneg_nonneg)
  have res: "p * lo * (86400000 / (c * hi) * lo) * lo \<le> rescaled_f32 pour_duration cycle"
    "rescaled_f32 pour_duration cycle \<le> p * hi * (86400000 / (c * lo) * hi) * hi"
    using f32_round_between [OF m0 m]
    by (simp_all add: rescaled_f32_def f32_mul_def f32_target_exact lo_def hi_def)
  have x: "x = p * 86400000 / c" by (simp add: x_def p_def c_def)
  have x0: "0 \<le> x" using p c by (simp add: x)
  have e1: "p * lo * (86400000 / (c * hi) * lo) * lo = x * (lo ^ 3 / hi)"
    using c lohi by (simp add: x power3_eq_cube field_simps)
  have k1: "1 - 1 / 2 ^ 21 \<le> lo ^ 3 / hi"
    by (simp add: lo_def hi_def power_divide)
  have "x * (1 - 1 / 2 ^ 21) \<le> x * (lo ^ 3 / hi)"
    using k1 x0 by (rule mult_left_mono)
  then have lower: "x * (1 - 1 / 2 ^ 21) \<le> p * lo * (86400000 / (c * hi) * lo) * lo"
    by (simp only: e1)
  have e2: "p * hi * (86400000 / (c * lo) * hi) * hi = x * (hi ^ 3 / lo)"
    using c lohi by (simp add: x power3_eq_cube field_simps)
  have k2: "hi ^ 3 / lo \<le> 1 + 1 / 2 ^ 21"
    by (simp add: lo_def hi_def power_divide)
  have "x * (hi ^ 3 / lo) \<le> x * (1 + 1 / 2 ^ 21)"
    using k2 x0 by (rule mult_left_mono)
  then have upper: "p * hi * (86400000 / (c * lo) * hi) * hi \<le> x * (1 + 1 / 2 ^ 21)"
    by (simp only: e2)
  from res lower upper show ?thesis by linarith
qed

lemma rescale_unfold:
  "rescale_pour_duration pd cycle =
     (if cycle = 0 then None else u32_of_f32 (rescaled_f32 pd cycle))"
  by (simp add: rescale_pour_duration_def rescaled_f32_def)

lemma rescale_close:
  assumes "cycle \<noteq> 0"
    and "unat pd * 86400000 \<le> unat cycle * 2 ^ 31"
  shows "\<exists>d. rescale_pour_duration pd cycle = Some d \<and>
      \<bar>int (unat (min d (MAX_MOTOR_ON_TIME_S * 1000)))
        - spec_pour_duration (unat pd) 86400000 (unat cycle) 120000\<bar> \<le> 1"
proof -
  define p :: rat where "p = of_nat (unat pd)"
  define c :: rat where "c = of_nat (unat cycle)"
  define x :: rat where "x = p * 86400000 / c"
  define P where "P = rescaled_f32 pd cycle"
  have "0 < unat cycle" using assms(1) by (simp add: unat_gt_0)
  then have c: "0 < c" unfolding c_def by (simp only: of_nat_0_less_iff)
  have p: "0 \<le> p" unfolding p_def by (simp only: of_nat_0_le_iff)
  have x0: "0 \<le> x" using c p by (simp add: x_def)
  have "(of_nat (unat pd * 86400000) :: rat) \<le> of_nat (unat cycle * 2 ^ 31)"
    using assms(2) by (simp only: of_nat_le_iff)
  then have "p * 86400000 \<le> c * 2 ^ 31"
    unfolding p_def c_def by (simp only: of_nat_mult of_nat_numeral of_nat_power)
  then have x31: "x \<le> 2 ^ 31"
    using c unfolding x_def by (simp add: pos_divide_le_eq mult.commute)
  from rescaled_f32_bounds [OF assms(1), of pd]
  have P: "x * (1 - 1 / 2 ^ 21) \<le> P" "P \<le> x * (1 + 1 / 2 ^ 21)"
    unfolding x_def P_def p_def c_def by blast+
  have P0: "0 \<le> P"
  proof -
    have "0 \<le> x * (1 - 1 / 2 ^ 21)" using x0 by (intro mult_nonneg_nonneg) simp_all
    with P(1) show ?thesis by linarith
  qed
  have "x * (1 + 1 / 2 ^ 21) \<le> 2 ^ 31 * (1 + 1 / 2 ^ 21)"
    using x31 by (intro mult_right_mono) simp_all
  with P(2) have P32: "P < 2 ^ 32" by simp
  define d :: u32 where "d = word_of_int \<lfloor>P\<rfloor>"
  have resc: "rescale_pour_duration pd cycle = Some d"
    using assms(1) P32 by (simp add: rescale_unfold u32_of_f32_def d_def P_def)
  have fl: "0 \<le> \<lfloor>P\<rfloor>" "\<lfloor>P\<rfloor> < 2 ^ 32"
    using P0 P32 by (simp_all add: floor_less_iff)
  have ud: "uint d = \<lfloor>P\<rfloor>"
    using fl by (simp add: d_def uint_word_of_int take_bit_int_eq_self_iff flip: take_bit_eq_mod)
  have "uint (min d (MAX_MOTOR_ON_TIME_S * 1000)) = min (uint d) 120000"
    by (simp add: min_def MAX_MOTOR_ON_TIME_S_def word_le_def)
  then have um: "int (unat (min d (MAX_MOTOR_ON_TIME_S * 1000))) = min \<lfloor>P\<rfloor> 120000"
    by (simp add: ud)
  have sp: "spec_pour_duration (unat pd) 86400000 (unat cycle) 120000 = min \<lfloor>x\<rfloor> 120000"
    unfolding spec_pour_duration_def x_def p_def c_def
    by (simp only: of_nat_numeral)
  have "\<bar>min \<lfloor>P\<rfloor> 120000 - min \<lfloor>x\<rfloor> 120000\<bar> \<le> 1"
  proof (cases "120001 \<le> x")
    case True
    have "120000 \<le> (120001 :: rat) * (1 - 1 / 2 ^ 21)" by simp
    also have "\<dots> \<le> x * (1 - 1 / 2 ^ 21)"
      using True by (intro mult_right_mono) simp_all
    finally have "120000 \<le> P" using P(1) by linarith
    then have "120000 \<le> \<lfloor>P\<rfloor>" by (simp add: le_floor_iff)
    moreover have "120000 \<le> \<lfloor>x\<rfloor>" using True by (simp add: le_floor_iff)
    ultimately show ?thesis by simp
  next
    case False
    then have "x / 2 ^ 21 < 1" by simp
    then have "x - 1 < P" "P < x + 1"
      using P by (simp_all add: algebra_simps)
    then have "\<lfloor>x\<rfloor> - 1 \<le> \<lfloor>P\<rfloor>" "\<lfloor>P\<rfloor> \<le> \<lfloor>x\<rfloor> + 1"
      by linarith+
    then show ?thesis by linarith
  qed
  with resc um sp show ?thesis by simp
qed

lemma rescale_half_cycle: "rescale_pour_duration 20000 43200000 = Some 40000"
  by (simp add: rescale_pour_duration_def DESIRED_POUR_CYCLE_S_def f32_eval)

lemma rescale_off_by_one: "rescale_pour_duration 20000 75000000 = Some 23039"
  by (simp add: rescale_pour_duration_def DESIRED_POUR_CYCLE_S_def f32_eval)

text \<open>
  C2, as the code has it. On entering Pouring with a previous pour's end recorded
  (\<^verbatim>\<open>last_motor_off_moment\<close> is not 0), an observed cycle that is not 0 and a product
  that fits \<^verbatim>\<open>uint32_t\<close>, the new \<^verbatim>\<open>pour_duration_ms\<close> is the previous one times
  target / observed, computed in single precision, cut to whole milliseconds and
  clamped to 120000 ms. It is within 1 ms of the exact product cut and clamped the same
  way, and the pour is scheduled to end that much later. With the previous duration
  20000 ms and an observed cycle of 43200000 ms it is exactly 40000 ms.
\<close>

theorem pour_duration_rescaled_within_one_ms:
  assumes "state s = STATE_PRE_POUR_STAGING"
    and "ui32_gte cur_time (next_state_update_time s)"
    and "is_low_rh int16 high_means_dry cur_hum"
    and "last_motor_off_moment s \<noteq> 0"
    and "cur_time \<noteq> last_motor_off_moment s"
    and "unat (pour_duration_ms s) * 86400000
           \<le> unat (cur_time - last_motor_off_moment s) * 2 ^ 31"
  shows "\<exists>s' d. loop int16 high_means_dry cur_time cur_hum s = Some s' \<and>
      state s' = STATE_POURING \<and>
      rescale_pour_duration (pour_duration_ms s) (cur_time - last_motor_off_moment s) = Some d \<and>
      pour_duration_ms s' = min d (MAX_MOTOR_ON_TIME_S * 1000) \<and>
      next_state_update_time s' = cur_time + pour_duration_ms s' \<and>
      \<bar>int (unat (pour_duration_ms s'))
        - spec_pour_duration (unat (pour_duration_ms s)) 86400000
            (unat (cur_time - last_motor_off_moment s)) 120000\<bar> \<le> 1 \<and>
      (pour_duration_ms s = 20000 \<and> cur_time - last_motor_off_moment s = 43200000
         \<longrightarrow> pour_duration_ms s' = 40000)"
proof -
  let ?cycle = "cur_time - last_motor_off_moment s"
  have "?cycle \<noteq> 0" using assms(5) by simp
  from rescale_close [OF this assms(6)]
  obtain d where d: "rescale_pour_duration (pour_duration_ms s) ?cycle = Some d"
    and close: "\<bar>int (unat (min d (MAX_MOTOR_ON_TIME_S * 1000)))
        - spec_pour_duration (unat (pour_duration_ms s)) 86400000 (unat ?cycle) 120000\<bar> \<le> 1"
    by blast
  have defined: "last_motor_off_moment s = 0 \<or>
      rescale_pour_duration (pour_duration_ms s) ?cycle \<noteq> None"
    using d by simp
  from loop_staging_dry [OF assms(1-3) defined]
  obtain s' where s': "loop int16 high_means_dry cur_time cur_hum s = Some s'"
    "state s' = STATE_POURING"
    "next_state_update_time s' = cur_time + pour_duration_ms s'"
    "pour_duration_ms s' = min d (MAX_MOTOR_ON_TIME_S * 1000)"
    using assms(4) d by auto
  have "pour_duration_ms s' = 40000"
    if "pour_duration_ms s = 20000 \<and> ?cycle = 43200000"
    using that d s'(4) by (simp add: rescale_half_cycle MAX_MOTOR_ON_TIME_S_def)
  with s' d close show ?thesis by auto
qed

theorem pour_duration_rescaled_within_one_ms_witness:
  "\<exists>s'. loop True True 48200000 400
       \<lparr>state = STATE_PRE_POUR_STAGING, next_state_update_time = 48200000,
        last_motor_off_moment = 5000000, pour_duration_ms = 20000, motor_is_on = False\<rparr>
       = Some s' \<and> state s' = STATE_POURING \<and> pour_duration_ms s' = 40000 \<and>
       next_state_update_time s' = 48240000"
proof -
  let ?s = "\<lparr>state = STATE_PRE_POUR_STAGING, next_state_update_time = 48200000,
        last_motor_off_moment = 5000000, pour_duration_ms = 20000, motor_is_on = False\<rparr>"
  have h1: "state ?s = STATE_PRE_POUR_STAGING" by simp
  have h2: "ui32_gte 48200000 (next_state_update_time ?s)" by (simp add: ui32_gte_def)
  have h3: "is_low_rh True True 400"
    by (simp add: is_low_rh_def i16_greater_u16_def MEASURER_RANGE_HIGH_def)
  have h4: "last_motor_off_moment ?s \<noteq> 0" by simp
  have h5: "48200000 \<noteq> last_motor_off_moment ?s" by simp
  have h6: "unat (pour_duration_ms ?s) * 86400000
      \<le> unat (48200000 - last_motor_off_moment ?s) * 2 ^ 31" by simp
  from pour_duration_rescaled_within_one_ms [OF h1 h2 h3 h4 h5 h6]
  show ?thesis by auto
qed

text \<open>
  The product is not exact: with the base duration of 20000 ms and an observed cycle of
  75000000 ms the exact product is 23040 ms, a whole number; the ratio 1.152 is rounded
  down in single precision, the product falls just below 23040, and the new duration is
  23039 ms.
\<close>

theorem pour_duration_not_exact_product:
  "loop True True 80000000 400
     \<lparr>state = STATE_PRE_POUR_STAGING, next_state_update_time = 80000000,
      last_motor_off_moment = 5000000, pour_duration_ms = 20000, motor_is_on = False\<rparr> =
   Some \<lparr>state = STATE_POURING, next_state_update_time = 80023039,
      last_motor_off_moment = 5000000, pour_duration_ms = 23039, motor_is_on = True\<rparr> \<and>
   spec_pour_duration 20000 86400000 75000000 120000 = 23040"
proof -
  have "is_low_rh True True 400"
    by (simp add: is_low_rh_def i16_greater_u16_def MEASURER_RANGE_HIGH_def)
  then have "loop True True 80000000 400
     \<lparr>state = STATE_PRE_POUR_STAGING, next_state_update_time = 80000000,
      last_motor_off_moment = 5000000, pour_duration_ms = 20000, motor_is_on = False\<rparr> =
   Some \<lparr>state = STATE_POURING, next_state_update_time = 80023039,
      last_motor_off_moment = 5000000, pour_duration_ms = 23039, motor_is_on = True\<rparr>"
    by (simp add: loop_def ui32_gte_def motor_on_def rescale_off_by_one MAX_MOTOR_ON_TIME_S_def)
  moreover have "spec_pour_duration 20000 86400000 75000000 120000 = 23040"
    by (simp add: spec_pour_duration_def floor_rat_numeral)
  ultimately show ?thesis by simp
qed

section \<open>Properties of the motor board link\<close>

subsection \<open>The wait loop, step by step\<close>

lemma unat_u16_bound: "unat (T :: u16) < 65536"
  using unsigned_less [of T, where 'a = nat] by simp

lemma unat_u8_bound: "unat (k :: u8) < 256"
  using unsigned_less [of k, where 'a = nat] by simp

lemma unat_ucast_u16_u32: "unat (ucast (T :: u16) :: u32) = unat T"
proof -
  have "take_bit 32 (unat T) = unat T"
    using unat_u16_bound [of T] by (simp add: take_bit_nat_eq_self_iff)
  then show ?thesis by (simp add: unsigned_ucast_eq)
qed

lemma running_iff: "running T s w \<longleftrightarrow> elapsed s w < unat T"
  by (simp add: running_def elapsed_def word_less_nat_alt unat_ucast_u16_u32)

lemma elapsed_delay:
  assumes "elapsed s w + k < 2 ^ 32"
  shows "elapsed s (delay k w) = elapsed s w + k"
proof -
  have "GetTimePassed_Ms s 0 (delay k w) = GetTimePassed_Ms s 0 w + of_nat k"
    by (simp add: GetTimePassed_Ms_def millis_def delay_def)
  moreover have "unat (GetTimePassed_Ms s 0 w + (of_nat k :: u32))
      = unat (GetTimePassed_Ms s 0 w) + k"
    using assms by (simp add: unat_word_ariths elapsed_def unat_of_nat)
  ultimately show ?thesis by (simp add: elapsed_def)
qed

lemma elapsed_rx [simp]: "elapsed s (w\<lparr>rx := r\<rparr>) = elapsed s w"
  by (simp add: elapsed_def GetTimePassed_Ms_def millis_def)

lemma elapsed_tx [simp]: "elapsed s (w\<lparr>tx := r\<rparr>) = elapsed s w"
  by (simp add: elapsed_def GetTimePassed_Ms_def millis_def)

lemma tick_fields [simp]:
  "rx (tick w) = rx w" "tx (tick w) = tx w"
  "TimePerCharacter_Ms (tick w) = TimePerCharacter_Ms w"
  "now_ms (tick w) = now_ms w + unat (TimePerCharacter_Ms w)"
  by (simp_all add: tick_def delay_def)

lemma elapsed_tick:
  "elapsed s w < 2 ^ 31 \<Longrightarrow>
   elapsed s (tick w) = elapsed s w + unat (TimePerCharacter_Ms w)"
  unfolding tick_def using unat_u8_bound [of "TimePerCharacter_Ms w"]
  by (intro elapsed_delay) simp

lemma running_small: "running T s w \<Longrightarrow> elapsed s w < 65536"
  using unat_u16_bound [of T] by (simp add: running_iff)

lemma serial_available_iff:
  "serial_available w \<noteq> 0 \<longleftrightarrow> (\<exists>t b rest. rx w = (t, b) # rest \<and> t \<le> now_ms w)"
  by (cases "rx w") (auto simp add: serial_available_def)

lemma serial_read_Cons:
  "rx w = (t, b) # rest \<Longrightarrow> t \<le> now_ms w \<Longrightarrow> serial_read w = (b, w\<lparr>rx := rest\<rparr>)"
  by (simp add: serial_read_def)

lemma WaitLoop_exit:
  "\<not> running T s w \<Longrightarrow> WaitLoop T s c w = Some (False, w)"
  by (subst WaitLoop.simps) (simp add: running_def)

lemma WaitLoop_idle:
  "running T s w \<Longrightarrow> serial_available w = 0 \<Longrightarrow> WaitLoop T s c w = WaitLoop T s c (tick w)"
  by (subst WaitLoop.simps) (simp add: running_def tick_def)

lemma WaitLoop_read:
  assumes "running T s w" and "rx w = (t, b) # rest" and "t \<le> now_ms w"
  shows "WaitLoop T s (c0, c1, c2) w =
     (if c1 = 10 \<and> c0 = 71 \<and> b = 10 then
        if serial_available (tick (w\<lparr>rx := rest\<rparr>)) = 0
        then Some (True, tick (w\<lparr>rx := rest\<rparr>))
        else WaitLoop T s (b, c0, c1) (tick (tick (w\<lparr>rx := rest\<rparr>)))
      else WaitLoop T s (b, c0, c1) (tick (w\<lparr>rx := rest\<rparr>)))"
proof -
  have "serial_available w \<noteq> 0"
    using assms(2,3) by (simp add: serial_available_def)
  then show ?thesis
    using assms by (subst WaitLoop.simps) (simp add: running_def tick_def serial_read_Cons delay_def)
qed

lemma wait_post_exit: "\<not> running T s w \<Longrightarrow> wait_post T s c w False w"
  by (simp add: wait_post_def)

lemma wait_post_idle:
  assumes "running T s w" and "wait_post T s c (tick w) b w'"
  shows "wait_post T s c w b w'"
proof -
  have e: "elapsed s (tick w) = elapsed s w + unat (TimePerCharacter_Ms w)"
    using running_small [OF assms(1)] by (intro elapsed_tick) simp
  have "elapsed s w < unat T" using assms(1) by (simp add: running_iff)
  with assms e show ?thesis
    by (auto simp add: wait_post_def split: if_splits)
qed

lemma wait_post_read:
  assumes "running T s w" and "rx w = (t, x) # rest"
    and "wait_post T s (x, c0, c1) (tick (w\<lparr>rx := rest\<rparr>)) b w'"
  shows "wait_post T s (c0, c1, c2) w b w'"
proof -
  let ?w1 = "tick (w\<lparr>rx := rest\<rparr>)"
  have e: "elapsed s ?w1 = elapsed s w + unat (TimePerCharacter_Ms w)"
    using running_small [OF assms(1)] by (subst elapsed_tick) simp_all
  have lt: "elapsed s w < unat T" using assms(1) by (simp add: running_iff)
  from assms(3) obtain pre where pre: "rx ?w1 = pre @ rx w'"
    and win: "b \<longrightarrow> (\<exists>ys. [c1, c0, x] @ map snd pre = ys @ [10, 71, 10])"
    by (auto simp add: wait_post_def)
  have "rx w = ((t, x) # pre) @ rx w'"
    using pre assms(2) by simp
  moreover have "b \<longrightarrow> (\<exists>ys. [c2, c1, c0] @ map snd ((t, x) # pre) = ys @ [10, 71, 10])"
  proof
    assume b
    with win obtain ys where "[c1, c0, x] @ map snd pre = ys @ [10, 71, 10]" by blast
    then have "[c2, c1, c0] @ map snd ((t, x) # pre) = (c2 # ys) @ [10, 71, 10]" by simp
    then show "\<exists>ys. [c2, c1, c0] @ map snd ((t, x) # pre) = ys @ [10, 71, 10]" by blast
  qed
  ultimately have "\<exists>pre. rx w = pre @ rx w' \<and>
      (b \<longrightarrow> (\<exists>ys. [c2, c1, c0] @ map snd pre = ys @ [10, 71, 10]))"
    by blast
  moreover from assms(3) e lt have "tx w' = tx w"
    "TimePerCharacter_Ms w' = TimePerCharacter_Ms w" "now_ms w \<le> now_ms w'"
    "b \<longrightarrow> serial_available w' = 0" "\<not> b \<longrightarrow> \<not> running T s w'"
    "now_ms w' + elapsed s w < now_ms w + unat T + 2 * unat (TimePerCharacter_Ms w)"
    by (auto simp add: wait_post_def split: if_splits)
  ultimately show ?thesis
    using assms(1) by (simp add: wait_post_def)
qed

lemma wait_post_false_match:
  assumes "running T s w" and "rx w = (t, x) # rest"
    and "wait_post T s (x, c0, c1) (tick (tick (w\<lparr>rx := rest\<rparr>))) b w'"
  shows "wait_post T s (c0, c1, c2) w b w'"
proof -
  let ?w1 = "tick (w\<lparr>rx := rest\<rparr>)"
  let ?w2 = "tick ?w1"
  have e1: "elapsed s ?w1 = elapsed s w + unat (TimePerCharacter_Ms w)"
    using running_small [OF assms(1)] by (subst elapsed_tick) simp_all
  have "elapsed s ?w1 < 2 ^ 31"
    using e1 running_small [OF assms(1)] unat_u8_bound [of "TimePerCharacter_Ms w"] by simp
  then have e: "elapsed s ?w2 = elapsed s w + 2 * unat (TimePerCharacter_Ms w)"
    using e1 by (subst elapsed_tick) simp_all
  have lt: "elapsed s w < unat T" using assms(1) by (simp add: running_iff)
  from assms(3) obtain pre where pre: "rx ?w2 = pre @ rx w'"
    and win: "b \<longrightarrow> (\<exists>ys. [c1, c0, x] @ map snd pre = ys @ [10, 71, 10])"
    by (auto simp add: wait_post_def)
  have "rx w = ((t, x) # pre) @ rx w'"
    using pre assms(2) by simp
  moreover have "b \<longrightarrow> (\<exists>ys. [c2, c1, c0] @ map snd ((t, x) # pre) = ys @ [10, 71, 10])"
  proof
    assume b
    with win obtain ys where "[c1, c0, x] @ map snd pre = ys @ [10, 71, 10]" by blast
    then have "[c2, c1, c0] @ map snd ((t, x) # pre) = (c2 # ys) @ [10, 71, 10]" by simp
    then show "\<exists>ys. [c2, c1, c0] @ map snd ((t, x) # pre) = ys @ [10, 71, 10]" by blast
  qed
  ultimately have "\<exists>pre. rx w = pre @ rx w' \<and>
      (b \<longrightarrow> (\<exists>ys. [c2, c1, c0] @ map snd pre = ys @ [10, 71, 10]))"
    by blast
  moreover from assms(3) e lt have "tx w' = tx w"
    "TimePerCharacter_Ms w' = TimePerCharacter_Ms w" "now_ms w \<le> now_ms w'"
    "b \<longrightarrow> serial_available w' = 0" "\<not> b \<longrightarrow> \<not> running T s w'"
    "now_ms w' + elapsed s w < now_ms w + unat T + 2 * unat (TimePerCharacter_Ms w)"
    by (auto simp add: wait_post_def split: if_splits)
  ultimately show ?thesis
    using assms(1) by (simp add: wait_post_def)
qed

lemma wait_post_match:
  assumes "running T s w" and "rx w = (t, 10) # rest"
    and "serial_available (tick (w\<lparr>rx := rest\<rparr>)) = 0"
  shows "wait_post T s (71, 10, c2) w True (tick (w\<lparr>rx := rest\<rparr>))"
proof -
  have lt: "elapsed s w < unat T" using assms(1) by (simp add: running_iff)
  have "rx w = [(t, 10)] @ rx (tick (w\<lparr>rx := rest\<rparr>))"
    using assms(2) by simp
  moreover have "[c2, 10, 71] @ map snd [(t, 10 :: u8)] = [c2] @ [10, 71, 10 :: u8]"
    by simp
  ultimately have "\<exists>pre. rx w = pre @ rx (tick (w\<lparr>rx := rest\<rparr>)) \<and>
      (\<exists>ys. [c2, 10, 71] @ map snd pre = ys @ [10, 71, 10 :: u8])"
    by blast
  with assms lt show ?thesis
    by (simp add: wait_post_def)
qed

text \<open>The wait returns, and what it returns satisfies \<open>wait_post\<close>.\<close>

lemma WaitLoop_post:
  assumes "TimePerCharacter_Ms w \<noteq> 0"
  shows "\<exists>b w'. WaitLoop T s c w = Some (b, w') \<and> wait_post T s c w b w'"
  using assms
proof (induction "unat T - elapsed s w" arbitrary: w c rule: less_induct)
  case less
  show ?case
  proof (cases "running T s w")
    case False
    then show ?thesis
      using WaitLoop_exit wait_post_exit by blast
  next
    case True
    then have lt: "elapsed s w < unat T" by (simp add: running_iff)
    have pos: "0 < unat (TimePerCharacter_Ms w)"
      using less.prems by (simp add: unat_gt_0)
    have e1: "elapsed s (tick (w\<lparr>rx := r\<rparr>)) = elapsed s w + unat (TimePerCharacter_Ms w)" for r
      using running_small [OF True] by (subst elapsed_tick) simp_all
    have e0: "elapsed s (tick w) = elapsed s w + unat (TimePerCharacter_Ms w)"
      using running_small [OF True] by (subst elapsed_tick) simp_all
    have e2: "elapsed s (tick (tick (w\<lparr>rx := r\<rparr>))) = elapsed s w + 2 * unat (TimePerCharacter_Ms w)" for r
    proof -
      have "elapsed s (tick (w\<lparr>rx := r\<rparr>)) < 2 ^ 31"
        using e1 [of r] running_small [OF True] unat_u8_bound [of "TimePerCharacter_Ms w"] by simp
      then show ?thesis using e1 [of r] by (subst elapsed_tick) simp_all
    qed
    obtain c0 c1 c2 where c: "c = (c0, c1, c2)" by (cases c)
    show ?thesis
    proof (cases "serial_available w = 0")
      case idle: True
      have "unat T - elapsed s (tick w) < unat T - elapsed s w"
        using e0 lt pos by simp
      moreover have "TimePerCharacter_Ms (tick w) \<noteq> 0" using less.prems by simp
      ultimately obtain b w' where "WaitLoop T s c (tick w) = Some (b, w')"
        "wait_post T s c (tick w) b w'"
        using less.hyps [of "tick w" c] by blast
      then show ?thesis
        using WaitLoop_idle [OF True idle] wait_post_idle [OF True] by auto
    next
      case False
      then obtain t x rest where rx: "rx w = (t, x) # rest" and arrived: "t \<le> now_ms w"
        using serial_available_iff [of w] by blast
      let ?w1 = "tick (w\<lparr>rx := rest\<rparr>)"
      have m1: "unat T - elapsed s ?w1 < unat T - elapsed s w"
        using e1 lt pos by simp
      have m2: "unat T - elapsed s (tick ?w1) < unat T - elapsed s w"
        using e2 lt pos by simp
      have k1: "TimePerCharacter_Ms ?w1 \<noteq> 0" "TimePerCharacter_Ms (tick ?w1) \<noteq> 0"
        using less.prems by simp_all
      note unfold = WaitLoop_read [OF True rx arrived, of c0 c1 c2]
      show ?thesis
      proof (cases "c1 = 10 \<and> c0 = 71 \<and> x = 10")
        case nomatch: False
        obtain b w' where "WaitLoop T s (x, c0, c1) ?w1 = Some (b, w')"
          "wait_post T s (x, c0, c1) ?w1 b w'"
          using less.hyps [OF m1 k1(1), of "(x, c0, c1)"] by blast
        then show ?thesis
          using unfold nomatch wait_post_read [OF True rx] c by auto
      next
        case match: True
        show ?thesis
        proof (cases "serial_available ?w1 = 0")
          case True
          then show ?thesis
            using unfold match c wait_post_match [OF \<open>running T s w\<close> _ True, of t c2] rx
            by auto
        next
          case False
          obtain b w' where "WaitLoop T s (x, c0, c1) (tick ?w1) = Some (b, w')"
            "wait_post T s (x, c0, c1) (tick ?w1) b w'"
            using less.hyps [OF m2 k1(2), of "(x, c0, c1)"] by blast
          then show ?thesis
            using unfold match False wait_post_false_match [OF \<open>running T s w\<close> rx] c by auto
        qed
      qed
    qed
  qed
qed

lemma has_sentinel_append: "has_sentinel (ys @ [10, 71, 10] @ zs)"
  by (induction ys rule: has_sentinel.induct) simp_all

lemma ends_with_sentinel:
  assumes "[0, 0, 0] @ p = ys @ [10, 71, 10 :: u8]"
  shows "\<exists>zs. p = zs @ [10, 71, 10]"
proof (cases ys)
  case Nil
  with assms show ?thesis by simp
next
  case (Cons a ys1)
  show ?thesis
  proof (cases ys1)
    case Nil
    with Cons assms show ?thesis by simp
  next
    case (Cons b ys2)
    show ?thesis
    proof (cases ys2)
      case Nil
      with \<open>ys = a # ys1\<close> \<open>ys1 = b # ys2\<close> assms show ?thesis by simp
    next
      case (Cons c ys3)
      with \<open>ys = a # ys1\<close> \<open>ys1 = b # ys2\<close> assms show ?thesis by simp
    qed
  qed
qed

lemma WaitForReadySignal_post:
  assumes "TimePerCharacter_Ms w \<noteq> 0"
  shows "\<exists>b w'. WaitForReadySignal T w = Some (b, w') \<and> wait_post T (millis w) (0, 0, 0) w b w'"
  unfolding WaitForReadySignal_def using WaitLoop_post [OF assms] by blast

lemma elapsed_start [simp]: "elapsed (millis w) w = 0"
  by (simp add: elapsed_def GetTimePassed_Ms_def)

text \<open>A confirmed ready signal means the bytes consumed end in the sentinel.\<close>

lemma wait_post_ready_consumed:
  assumes "wait_post T s (0, 0, 0) w True w'"
  shows "\<exists>pre zs. rx w = pre @ rx w' \<and> map snd pre = zs @ [10, 71, 10]"
proof -
  from assms obtain pre ys where "rx w = pre @ rx w'"
    and "[0, 0, 0] @ map snd pre = ys @ [10, 71, 10]"
    by (auto simp add: wait_post_def)
  then show ?thesis using ends_with_sentinel by blast
qed

lemma wait_post_ready_has_sentinel:
  assumes "wait_post T s (0, 0, 0) w True w'"
  shows "has_sentinel (map snd (rx w))"
proof -
  from wait_post_ready_consumed [OF assms] obtain pre zs where
    "rx w = pre @ rx w'" "map snd pre = zs @ [10, 71, 10]" by blast
  then have "map snd (rx w) = zs @ [10, 71, 10] @ map snd (rx w')" by simp
  then show ?thesis by (simp only: has_sentinel_append)
qed

lemma wait_post_bound:
  assumes "wait_post T (millis w) c w b w'" and "TimePerCharacter_Ms w \<noteq> 0"
  shows "now_ms w' < now_ms w + unat T + 2 * unat (TimePerCharacter_Ms w)"
proof -
  have "0 < unat (TimePerCharacter_Ms w)" using assms(2) by (simp add: unat_gt_0)
  with assms(1) show ?thesis
    by (auto simp add: wait_post_def split: if_splits)
qed

lemma ceil_div_step:
  fixes d k :: nat
  assumes "0 < d" and "0 < k"
  shows "(d + k - 1) div k = (d - k + k - 1) div k + 1"
proof -
  obtain m where m: "d = Suc m" using assms(1) by (cases d) simp_all
  have lhs: "(d + k - 1) div k = m div k + 1"
    using assms(2) by (simp add: m)
  show ?thesis
  proof (cases "d \<le> k")
    case True
    then have "m div k = 0" by (simp add: m)
    moreover have "(d - k + k - 1) div k = 0" using True assms(2) by simp
    ultimately show ?thesis using lhs by simp
  next
    case False
    then have "d - k + k - 1 = m" by (simp add: m)
    then show ?thesis using lhs by simp
  qed
qed

text \<open>On a silent channel the wait polls until the timeout and fails.\<close>

lemma WaitLoop_silent:
  assumes "TimePerCharacter_Ms w \<noteq> 0" and "rx w = []"
  shows "WaitLoop T s c w =
     Some (False, delay
       ((unat T - elapsed s w + unat (TimePerCharacter_Ms w) - 1)
          div unat (TimePerCharacter_Ms w) * unat (TimePerCharacter_Ms w)) w)"
  using assms
proof (induction "unat T - elapsed s w" arbitrary: w rule: less_induct)
  case less
  let ?k = "unat (TimePerCharacter_Ms w)"
  have pos: "0 < ?k" using less.prems(1) by (simp add: unat_gt_0)
  show ?case
  proof (cases "running T s w")
    case False
    then have "unat T - elapsed s w = 0" by (simp add: running_iff)
    then have z: "(unat T - elapsed s w + ?k - 1) div ?k * ?k = 0"
      using pos by simp
    have "delay 0 w = w" by (simp add: delay_def)
    then show ?thesis unfolding z using WaitLoop_exit [OF False] by simp
  next
    case True
    then have lt: "elapsed s w < unat T" by (simp add: running_iff)
    have e0: "elapsed s (tick w) = elapsed s w + ?k"
      using running_small [OF True] by (subst elapsed_tick) simp_all
    have idle: "serial_available w = 0"
      using less.prems(2) by (simp add: serial_available_def)
    have "unat T - elapsed s (tick w) < unat T - elapsed s w"
      using e0 lt pos by simp
    then have IH: "WaitLoop T s c (tick w) =
        Some (False, delay ((unat T - elapsed s (tick w) + ?k - 1) div ?k * ?k) (tick w))"
      using less.hyps [of "tick w"] less.prems by simp
    define d where "d = unat T - elapsed s w"
    have d: "0 < d" "unat T - elapsed s (tick w) = d - ?k"
      using lt e0 by (simp_all add: d_def)
    have "(d + ?k - 1) div ?k = (d - ?k + ?k - 1) div ?k + 1"
      using d(1) pos by (rule ceil_div_step)
    then have "(d + ?k - 1) div ?k * ?k = (d - ?k + ?k - 1) div ?k * ?k + ?k"
      by simp
    moreover have "delay a (tick w) = delay (a + ?k) w" for a
      by (simp add: tick_def delay_def)
    ultimately show ?thesis
      using WaitLoop_idle [OF True idle, of c] IH d by (simp add: d_def)
  qed
qed

lemma serial_write_fields [simp]:
  "rx (serial_write bs w) = rx w" "tx (serial_write bs w) = tx w @ bs"
  "TimePerCharacter_Ms (serial_write bs w) = TimePerCharacter_Ms w"
  "now_ms (serial_write bs w) = now_ms w"
  "millis (serial_write bs w) = millis w"
  "serial_available (serial_write bs w) = serial_available w"
  by (simp_all add: serial_write_def millis_def serial_available_def)

text \<open>Two runs of the wait, evaluated.\<close>

lemma grace_wait_junk_byte:
  "WaitForReadySignal Motorboard_PrintHelpMaxTime_Ms
     \<lparr>now_ms = 0, rx = [(0, 120)], tx = [], TimePerCharacter_Ms = 1\<rparr> =
   Some (False, \<lparr>now_ms = 4000, rx = [], tx = [], TimePerCharacter_Ms = 1\<rparr>)"
proof -
  let ?w = "\<lparr>now_ms = 0, rx = [(0, 120)], tx = [], TimePerCharacter_Ms = 1\<rparr>"
  have r: "running 4000 0 ?w"
    by (simp add: running_def GetTimePassed_Ms_def millis_def)
  have "WaitLoop 4000 0 (0, 0, 0) ?w = WaitLoop 4000 0 (120, 0, 0) (tick (?w\<lparr>rx := []\<rparr>))"
    using WaitLoop_read [OF r, of 0 120 "[]" 0 0 0] by simp
  also have "\<dots> = Some (False, \<lparr>now_ms = 4000, rx = [], tx = [], TimePerCharacter_Ms = 1\<rparr>)"
    by (subst WaitLoop_silent)
      (simp_all add: tick_def delay_def elapsed_def GetTimePassed_Ms_def millis_def)
  finally show ?thesis
    by (simp add: WaitForReadySignal_def Motorboard_PrintHelpMaxTime_Ms_def millis_def)
qed

lemma wait_silent_5000:
  "WaitForReadySignal 5000 \<lparr>now_ms = 0, rx = [], tx = [32], TimePerCharacter_Ms = 1\<rparr> =
   Some (False, \<lparr>now_ms = 5000, rx = [], tx = [32], TimePerCharacter_Ms = 1\<rparr>)"
  unfolding WaitForReadySignal_def
  by (subst WaitLoop_silent)
    (simp_all add: delay_def elapsed_def GetTimePassed_Ms_def millis_def)

lemma buffered_ready_consumes_all:
  assumes "wait_post T s (0, 0, 0) w True w'"
    and "\<forall>p \<in> set (rx w). fst p \<le> now_ms w"
  shows "\<exists>zs. map snd (rx w) = zs @ [10, 71, 10]"
proof -
  from wait_post_ready_consumed [OF assms(1)] obtain pre zs where
    pre: "rx w = pre @ rx w'" "map snd pre = zs @ [10, 71, 10]" by blast
  have gap: "serial_available w' = 0" and later: "now_ms w \<le> now_ms w'"
    using assms(1) by (simp_all add: wait_post_def)
  have "rx w' = []"
  proof (cases "rx w'")
    case Nil
    then show ?thesis .
  next
    case (Cons p ps)
    then have "p \<in> set (rx w)" using pre(1) by simp
    then have "fst p \<le> now_ms w'" using assms(2) later by fastforce
    then have "serial_available w' \<noteq> 0"
      using Cons by (cases p) (simp add: serial_available_def)
    with gap show ?thesis by simp
  qed
  with pre show ?thesis by simp
qed

subsection \<open>Streams without the sentinel, and streams that arrive during the wait\<close>

lemma has_sentinel_zeros: "has_sentinel (0 # 0 # 0 # xs) = has_sentinel xs"
proof (cases xs)
  case Nil
  then show ?thesis by simp
next
  case (Cons a ys)
  show ?thesis
  proof (cases ys)
    case Nil
    with Cons show ?thesis by simp
  next
    case (Cons b zs)
    with \<open>xs = a # ys\<close> show ?thesis by simp
  qed
qed

text \<open>
  On a stream without the sentinel no pass sees a match, so every pass takes one delay
  and the wait fails less than one delay after the timeout.
\<close>

lemma WaitLoop_no_sentinel:
  assumes "TimePerCharacter_Ms w \<noteq> 0"
    and "\<not> has_sentinel ([c2, c1, c0] @ map snd (rx w))"
  shows "\<exists>w'. WaitLoop T s (c0, c1, c2) w = Some (False, w') \<and>
      (if running T s w
       then now_ms w' + elapsed s w < now_ms w + unat T + unat (TimePerCharacter_Ms w)
       else w' = w)"
  using assms
proof (induction "unat T - elapsed s w" arbitrary: w c0 c1 c2 rule: less_induct)
  case less
  let ?k = "unat (TimePerCharacter_Ms w)"
  show ?case
  proof (cases "running T s w")
    case False
    then show ?thesis using WaitLoop_exit [OF False] by simp
  next
    case True
    then have lt: "elapsed s w < unat T" by (simp add: running_iff)
    have pos: "0 < ?k"
      using less.prems(1) by (simp add: unat_gt_0)
    have e1: "elapsed s (tick (w\<lparr>rx := r\<rparr>)) = elapsed s w + ?k" for r
      using running_small [OF True] by (subst elapsed_tick) simp_all
    have e0: "elapsed s (tick w) = elapsed s w + ?k"
      using running_small [OF True] by (subst elapsed_tick) simp_all
    show ?thesis
    proof (cases "serial_available w = 0")
      case idle: True
      have m: "unat T - elapsed s (tick w) < unat T - elapsed s w"
        using e0 lt pos by simp
      have k: "TimePerCharacter_Ms (tick w) \<noteq> 0" using less.prems(1) by simp
      have ns: "\<not> has_sentinel ([c2, c1, c0] @ map snd (rx (tick w)))"
        using less.prems(2) by simp
      from less.hyps [OF m k ns]
      obtain w' where w': "WaitLoop T s (c0, c1, c2) (tick w) = Some (False, w')"
        and b: "if running T s (tick w)
           then now_ms w' + elapsed s (tick w)
             < now_ms (tick w) + unat T + unat (TimePerCharacter_Ms (tick w))
           else w' = tick w"
        by blast
      have "now_ms w' + elapsed s w < now_ms w + unat T + ?k"
        using b e0 lt by (auto split: if_splits)
      then show ?thesis
        using WaitLoop_idle [OF True idle, of "(c0, c1, c2)"] w' True by simp
    next
      case False
      then obtain t x rest where rx: "rx w = (t, x) # rest" and arrived: "t \<le> now_ms w"
        using serial_available_iff [of w] by blast
      let ?w1 = "tick (w\<lparr>rx := rest\<rparr>)"
      have nomatch: "\<not> (c1 = 10 \<and> c0 = 71 \<and> x = 10)"
        and ns: "\<not> has_sentinel ([c1, c0, x] @ map snd (rx ?w1))"
        using less.prems(2) rx by auto
      have m: "unat T - elapsed s ?w1 < unat T - elapsed s w"
        using e1 lt pos by simp
      have k: "TimePerCharacter_Ms ?w1 \<noteq> 0" using less.prems(1) by simp
      from less.hyps [OF m k ns]
      obtain w' where w': "WaitLoop T s (x, c0, c1) ?w1 = Some (False, w')"
        and b: "if running T s ?w1
           then now_ms w' + elapsed s ?w1
             < now_ms ?w1 + unat T + unat (TimePerCharacter_Ms ?w1)
           else w' = ?w1"
        by blast
      have "now_ms w' + elapsed s w < now_ms w + unat T + ?k"
        using b e1 [of rest] lt by (auto split: if_splits)
      moreover have "WaitLoop T s (c0, c1, c2) w = WaitLoop T s (x, c0, c1) ?w1"
        using WaitLoop_read [OF True rx arrived, of c0 c1 c2] nomatch by simp
      ultimately show ?thesis using w' True by simp
    qed
  qed
qed

lemma WaitForReadySignal_no_sentinel:
  assumes "TimePerCharacter_Ms w \<noteq> 0"
    and "\<not> has_sentinel (map snd (rx w))"
  shows "\<exists>w'. WaitForReadySignal T w = Some (False, w') \<and>
      now_ms w' < now_ms w + unat T + unat (TimePerCharacter_Ms w)"
proof -
  have pos: "0 < unat (TimePerCharacter_Ms w)"
    using assms(1) by (simp add: unat_gt_0)
  have "\<not> has_sentinel ([0, 0, 0] @ map snd (rx w))"
    using assms(2) by (simp add: has_sentinel_zeros del: has_sentinel.simps)
  from WaitLoop_no_sentinel [OF assms(1) this, of T "millis w"]
  show ?thesis
    unfolding WaitForReadySignal_def using pos by (auto split: if_splits)
qed

text \<open>
  A stream that ends in the sentinel, followed by a gap, whenever its bytes arrive: with
  enough time the wait confirms the ready signal, on bytes of that stream only.
\<close>

lemma caught_up_ge: "now_ms w + 2 * unat (TimePerCharacter_Ms w) * n \<le> caught_up L n w"
  by (simp add: caught_up_def)

lemma caught_up_idle:
  "now_ms w < L \<Longrightarrow> caught_up L n (tick w) \<le> caught_up L n w"
  by (simp add: caught_up_def)

lemma caught_up_read:
  "caught_up L n (tick (w\<lparr>rx := r\<rparr>)) + unat (TimePerCharacter_Ms w) \<le> caught_up L (Suc n) w"
  by (simp add: caught_up_def)

lemma caught_up_read2:
  "caught_up L n (tick (tick (w\<lparr>rx := r\<rparr>))) \<le> caught_up L (Suc n) w"
  by (simp add: caught_up_def)

lemma window_shift:
  assumes "[c2, c1, c0] @ x # xs = ys @ [10, 71, 10 :: u8]"
  shows "\<exists>zs. [c1, c0, x] @ xs = zs @ [10, 71, 10]"
proof (cases ys)
  case Nil
  with assms show ?thesis by simp
next
  case (Cons a zs)
  with assms show ?thesis by simp
qed

lemma window_last:
  assumes "[c2, c1, c0] @ [x] = ys @ [10, 71, 10 :: u8]"
  shows "c1 = 10 \<and> c0 = 71 \<and> x = 10"
proof -
  have "length ys = 1" using arg_cong [OF assms, of length] by simp
  then obtain a where "ys = [a]" by (cases ys) simp_all
  with assms show ?thesis by simp
qed

lemma WaitLoop_arriving:
  assumes "TimePerCharacter_Ms w \<noteq> 0"
    and "rx w = pre @ later" and "pre \<noteq> []"
    and "\<exists>ys. [c2, c1, c0] @ map snd pre = ys @ [10, 71, 10]"
    and "\<forall>p \<in> set pre. fst p \<le> L"
    and "elapsed s w + caught_up L (length pre) w
         < unat T + 2 * unat (TimePerCharacter_Ms w) + now_ms w"
    and "later = [] \<or>
         caught_up L (length pre) w < fst (hd later) + unat (TimePerCharacter_Ms w)"
  shows "\<exists>w' consumed rest. WaitLoop T s (c0, c1, c2) w = Some (True, w') \<and>
      pre = consumed @ rest \<and> rx w' = rest @ later \<and> serial_available w' = 0 \<and>
      (\<forall>p \<in> set consumed. fst p + unat (TimePerCharacter_Ms w) \<le> now_ms w') \<and>
      now_ms w + unat (TimePerCharacter_Ms w) \<le> now_ms w' \<and>
      now_ms w' + unat (TimePerCharacter_Ms w) \<le> caught_up L (length pre) w"
  using assms
proof (induction "unat T - elapsed s w" arbitrary: w pre c0 c1 c2 rule: less_induct)
  case less
  let ?k = "unat (TimePerCharacter_Ms w)"
  have pos: "0 < ?k" using less.prems(1) by (simp add: unat_gt_0)
  obtain t x pre1 where pre: "pre = (t, x) # pre1"
    using less.prems(3) by (cases pre) auto
  have rx: "rx w = (t, x) # pre1 @ later" using less.prems(2) pre by simp
  have tL: "t \<le> L" using less.prems(5) pre by simp
  have L1: "\<forall>p \<in> set pre1. fst p \<le> L" using less.prems(5) pre by simp
  have len: "length pre = Suc (length pre1)" using pre by simp
  have ge: "now_ms w + 2 * ?k * length pre \<le> caught_up L (length pre) w"
    by (rule caught_up_ge)
  have two: "now_ms w + 2 * ?k \<le> caught_up L (length pre) w"
    using ge len by simp
  have lt: "elapsed s w < unat T"
    using less.prems(6) two by simp
  then have run: "running T s w" by (simp add: running_iff)
  have e1: "elapsed s (tick (w\<lparr>rx := r\<rparr>)) = elapsed s w + ?k" for r
    using running_small [OF run] by (subst elapsed_tick) simp_all
  have e0: "elapsed s (tick w) = elapsed s w + ?k"
    using running_small [OF run] by (subst elapsed_tick) simp_all
  have e2: "elapsed s (tick (tick (w\<lparr>rx := r\<rparr>))) = elapsed s w + 2 * ?k" for r
  proof -
    have "elapsed s (tick (w\<lparr>rx := r\<rparr>)) < 2 ^ 31"
      using e1 [of r] running_small [OF run] unat_u8_bound [of "TimePerCharacter_Ms w"] by simp
    then show ?thesis using e1 [of r] by (subst elapsed_tick) simp_all
  qed
  show ?case
  proof (cases "t \<le> now_ms w")
    case late: False
    then have idle: "serial_available w = 0"
      using rx by (simp add: serial_available_def)
    have nowL: "now_ms w < L" using late tL by simp
    have cu: "caught_up L (length pre) (tick w) \<le> caught_up L (length pre) w"
      using nowL by (rule caught_up_idle)
    have m: "unat T - elapsed s (tick w) < unat T - elapsed s w"
      using e0 lt pos by simp
    have a1: "TimePerCharacter_Ms (tick w) \<noteq> 0" using less.prems(1) by simp
    have a2: "rx (tick w) = pre @ later" using less.prems(2) by simp
    have a6: "elapsed s (tick w) + caught_up L (length pre) (tick w)
        < unat T + 2 * unat (TimePerCharacter_Ms (tick w)) + now_ms (tick w)"
      using less.prems(6) cu e0 by simp
    have a7: "later = [] \<or> caught_up L (length pre) (tick w)
        < fst (hd later) + unat (TimePerCharacter_Ms (tick w))"
      using less.prems(7) cu by auto
    from less.hyps [OF m a1 a2 less.prems(3,4,5) a6 a7]
    obtain w' consumed rest where
      r: "WaitLoop T s (c0, c1, c2) (tick w) = Some (True, w')"
        "pre = consumed @ rest" "rx w' = rest @ later" "serial_available w' = 0"
        "\<forall>p \<in> set consumed. fst p + ?k \<le> now_ms w'"
        "now_ms (tick w) + ?k \<le> now_ms w'"
        "now_ms w' + ?k \<le> caught_up L (length pre) (tick w)"
      by auto
    have "WaitLoop T s (c0, c1, c2) w = Some (True, w')"
      using WaitLoop_idle [OF run idle, of "(c0, c1, c2)"] r(1) by simp
    moreover have "now_ms w + ?k \<le> now_ms w'" using r(6) by simp
    moreover have "now_ms w' + ?k \<le> caught_up L (length pre) w" using r(7) cu by simp
    ultimately show ?thesis using r(2-5) by blast
  next
    case arrived: True
    let ?w1 = "tick (w\<lparr>rx := pre1 @ later\<rparr>)"
    let ?w2 = "tick ?w1"
    note unfold = WaitLoop_read [OF run rx arrived, of c0 c1 c2]
    from less.prems(4) pre
    have win: "\<exists>ys. [c2, c1, c0] @ x # map snd pre1 = ys @ [10, 71, 10]" by simp
    then have win1: "\<exists>zs. [c1, c0, x] @ map snd pre1 = zs @ [10, 71, 10]"
      using window_shift by blast
    have c1: "caught_up L (length pre1) ?w1 + ?k \<le> caught_up L (length pre) w"
      unfolding len by (rule caught_up_read)
    have c2: "caught_up L (length pre1) ?w2 \<le> caught_up L (length pre) w"
      unfolding len by (rule caught_up_read2)
    have gap: "serial_available ?w1 = 0" if "pre1 = []"
    proof (cases later)
      case Nil
      with that show ?thesis by (simp add: serial_available_def)
    next
      case (Cons p ps)
      then have "caught_up L (length pre) w < fst p + ?k" using less.prems(7) by simp
      then have "\<not> fst p \<le> now_ms ?w1" using two by simp
      then show ?thesis using Cons that by (cases p) (simp add: serial_available_def)
    qed
    have stop: ?thesis if av: "serial_available ?w1 = 0" and match: "c1 = 10 \<and> c0 = 71 \<and> x = 10"
    proof -
      have "WaitLoop T s (c0, c1, c2) w = Some (True, ?w1)"
        using unfold av match by simp
      moreover have "pre = [(t, x)] @ pre1" using pre by simp
      moreover have "rx ?w1 = pre1 @ later" by simp
      moreover have "\<forall>p \<in> set [(t, x)]. fst p + ?k \<le> now_ms ?w1"
        using arrived by simp
      moreover have "now_ms w + ?k \<le> now_ms ?w1" by simp
      moreover have "now_ms ?w1 + ?k \<le> caught_up L (length pre) w" using two by simp
      ultimately show ?thesis using av by blast
    qed
    have continue: ?thesis
      if ne: "pre1 \<noteq> []"
        and step: "WaitLoop T s (c0, c1, c2) w = WaitLoop T s (x, c0, c1) v"
        and v: "v = ?w1 \<or> v = ?w2"
      for v
    proof -
      have vf: "rx v = pre1 @ later" "TimePerCharacter_Ms v = TimePerCharacter_Ms w"
        using v by auto
      have vt: "now_ms w + ?k \<le> now_ms v" using v by auto
      have ve: "elapsed s v + caught_up L (length pre1) v \<le>
          elapsed s w + caught_up L (length pre) w + (now_ms v - now_ms w) \<and>
          caught_up L (length pre1) v \<le> caught_up L (length pre) w \<and>
          elapsed s w < elapsed s v"
        using v c1 c2 e1 [of "pre1 @ later"] e2 [of "pre1 @ later"] pos by auto
      have m: "unat T - elapsed s v < unat T - elapsed s w"
        using ve lt by linarith
      have a1: "TimePerCharacter_Ms v \<noteq> 0" using less.prems(1) vf by simp
      have a6: "elapsed s v + caught_up L (length pre1) v
          < unat T + 2 * unat (TimePerCharacter_Ms v) + now_ms v"
        using less.prems(6) ve vt unfolding vf(2) by linarith
      have a7: "later = [] \<or> caught_up L (length pre1) v
          < fst (hd later) + unat (TimePerCharacter_Ms v)"
        using less.prems(7) ve unfolding vf(2) by auto
      from less.hyps [OF m a1 vf(1) ne win1 L1 a6 a7]
      obtain w' consumed rest where
        r: "WaitLoop T s (x, c0, c1) v = Some (True, w')"
          "pre1 = consumed @ rest" "rx w' = rest @ later" "serial_available w' = 0"
          "\<forall>p \<in> set consumed. fst p + ?k \<le> now_ms w'"
          "now_ms v + ?k \<le> now_ms w'"
          "now_ms w' + ?k \<le> caught_up L (length pre1) v"
        using vf(2) by auto
      have "WaitLoop T s (c0, c1, c2) w = Some (True, w')"
        using step r(1) by simp
      moreover have "pre = ((t, x) # consumed) @ rest" using pre r(2) by simp
      moreover have "\<forall>p \<in> set ((t, x) # consumed). fst p + ?k \<le> now_ms w'"
        using r(5,6) arrived vt by simp
      moreover have "now_ms w + ?k \<le> now_ms w'" using r(6) vt by simp
      moreover have "now_ms w' + ?k \<le> caught_up L (length pre) w" using r(7) ve by simp
      ultimately show ?thesis using r(3,4) by blast
    qed
    show ?thesis
    proof (cases "c1 = 10 \<and> c0 = 71 \<and> x = 10")
      case match: True
      show ?thesis
      proof (cases "serial_available ?w1 = 0")
        case True
        then show ?thesis using match by (rule stop)
      next
        case False
        have ne: "pre1 \<noteq> []"
        proof
          assume "pre1 = []"
          then have "serial_available ?w1 = 0" by (rule gap)
          with False show False by simp
        qed
        have "WaitLoop T s (c0, c1, c2) w = WaitLoop T s (x, c0, c1) ?w2"
          using unfold match False by simp
        then show ?thesis using ne by (intro continue [of ?w2]) simp_all
      qed
    next
      case nomatch: False
      have ne: "pre1 \<noteq> []"
      proof
        assume "pre1 = []"
        with win have "\<exists>ys. [c2, c1, c0] @ [x] = ys @ [10, 71, 10]" by simp
        then have "c1 = 10 \<and> c0 = 71 \<and> x = 10" using window_last by blast
        with nomatch show False by simp
      qed
      have "WaitLoop T s (c0, c1, c2) w = WaitLoop T s (x, c0, c1) ?w1"
        using unfold nomatch by simp
      then show ?thesis using ne by (intro continue [of ?w1]) simp_all
    qed
  qed
qed

lemma sentinel_first:
  assumes "leading @ [10, 71, 10] = zs @ [10, 71, 10] @ r"
    and "\<not> has_sentinel (leading @ [10, 71])"
  shows "r = []"
proof (cases r rule: rev_cases)
  case Nil
  then show ?thesis .
next
  case (snoc r1 y)
  with assms(1) have "(leading @ [10, 71]) @ [10] = (zs @ [10, 71, 10] @ r1) @ [y]"
    by simp
  then have "leading @ [10, 71] = zs @ [10, 71, 10] @ r1"
    using append1_eq_conv by blast
  then have "has_sentinel (leading @ [10, 71])"
    by (simp only: has_sentinel_append)
  with assms(2) show ?thesis by simp
qed

text \<open>Unfolding the loop on a given channel.\<close>

lemmas wait_eval = WaitLoop.simps GetTimePassed_Ms_def millis_def serial_available_def
  serial_read_def delay_def Let_def

subsection \<open>Claims about the motor board link\<close>

text \<open>
  C5. Let the stream be \<open>pre\<close> followed by \<open>later\<close>, where \<open>pre\<close> is any leading bytes and
  then newline, \<^verbatim>\<open>'G'\<close>, newline, and let every byte of \<open>pre\<close> arrive by the time \<open>L\<close>,
  before the wait starts or during it. If the timeout and the gap before \<open>later\<close> both
  reach beyond \<open>caught_up L (length pre) w\<close>, \<^verbatim>\<open>WaitForReadySignal\<close> succeeds: the bytes
  it has consumed are a part of \<open>pre\<close> that ends in the sentinel, it returns no sooner
  than one delay after the last of them arrived, at a moment when no byte is available,
  and it has read nothing of \<open>later\<close>. It has consumed all of \<open>pre\<close> when the sentinel
  before the gap is the first one in the stream, or when \<open>pre\<close> was in the buffer from
  the start. On a stream that ends in newline, \<^verbatim>\<open>'G'\<close> the wait returns, never with a
  success at the end of the stream, and with failure when the stream was in the buffer
  from the start; on a stream that does not contain the sentinel it fails, however the
  bytes arrive.
\<close>

theorem ready_signal_confirmed_after_gap:
  assumes "TimePerCharacter_Ms w \<noteq> 0"
  shows
    "(rx w = pre @ later \<and> map snd pre = leading @ [10, 71, 10] \<and>
      (\<forall>p \<in> set pre. fst p \<le> L) \<and>
      caught_up L (length pre) w
        < now_ms w + unat Timeout_Ms + 2 * unat (TimePerCharacter_Ms w) \<and>
      (later = [] \<or>
       caught_up L (length pre) w < fst (hd later) + unat (TimePerCharacter_Ms w))
      \<longrightarrow> (\<exists>w' consumed rest zs.
            WaitForReadySignal Timeout_Ms w = Some (True, w') \<and>
            pre = consumed @ rest \<and> rx w' = rest @ later \<and>
            map snd consumed = zs @ [10, 71, 10] \<and>
            serial_available w' = 0 \<and>
            (\<forall>p \<in> set consumed. fst p + unat (TimePerCharacter_Ms w) \<le> now_ms w') \<and>
            now_ms w' + unat (TimePerCharacter_Ms w) \<le> caught_up L (length pre) w \<and>
            (L \<le> now_ms w \<or> \<not> has_sentinel (leading @ [10, 71]) \<longrightarrow> rest = []))) \<and>
     (map snd (rx w) = leading @ [10, 71]
      \<longrightarrow> (\<exists>b w'. WaitForReadySignal Timeout_Ms w = Some (b, w') \<and>
            (b \<longrightarrow> rx w' \<noteq> []) \<and>
            ((\<forall>p \<in> set (rx w). fst p \<le> now_ms w) \<longrightarrow> \<not> b))) \<and>
     (\<not> has_sentinel (map snd (rx w))
      \<longrightarrow> (\<exists>w'. WaitForReadySignal Timeout_Ms w = Some (False, w')))"
proof (intro conjI impI)
  let ?k = "unat (TimePerCharacter_Ms w)"
  assume a: "rx w = pre @ later \<and> map snd pre = leading @ [10, 71, 10] \<and>
      (\<forall>p \<in> set pre. fst p \<le> L) \<and>
      caught_up L (length pre) w < now_ms w + unat Timeout_Ms + 2 * ?k \<and>
      (later = [] \<or> caught_up L (length pre) w < fst (hd later) + ?k)"
  then have rx: "rx w = pre @ later" and pre: "map snd pre = leading @ [10, 71, 10]"
    and L: "\<forall>p \<in> set pre. fst p \<le> L"
    by simp_all
  have ne: "pre \<noteq> []" using pre by auto
  have win: "\<exists>ys. [0, 0, 0] @ map snd pre = ys @ [10, 71, 10]"
    using pre by (intro exI [of _ "[0, 0, 0] @ leading"]) simp
  have time: "elapsed (millis w) w + caught_up L (length pre) w
      < unat Timeout_Ms + 2 * ?k + now_ms w"
    using a by simp
  have gap: "later = [] \<or> caught_up L (length pre) w < fst (hd later) + ?k"
    using a by simp
  from WaitLoop_arriving [OF assms rx ne win L time gap]
  obtain w' consumed rest where
    r: "WaitLoop Timeout_Ms (millis w) (0, 0, 0) w = Some (True, w')"
      "pre = consumed @ rest" "rx w' = rest @ later" "serial_available w' = 0"
      "\<forall>p \<in> set consumed. fst p + ?k \<le> now_ms w'"
      "now_ms w + ?k \<le> now_ms w'"
      "now_ms w' + ?k \<le> caught_up L (length pre) w"
    by blast
  from WaitLoop_post [OF assms, of Timeout_Ms "millis w" "(0, 0, 0)"] r(1)
  have "wait_post Timeout_Ms (millis w) (0, 0, 0) w True w'" by auto
  from wait_post_ready_consumed [OF this]
  obtain pre' zs where p': "rx w = pre' @ rx w'" "map snd pre' = zs @ [10, 71, 10]"
    by blast
  have "pre' @ (rest @ later) = consumed @ (rest @ later)"
    using p'(1) rx r(2,3) by simp
  then have "pre' = consumed" by (simp only: append_same_eq)
  then have zs: "map snd consumed = zs @ [10, 71, 10]" using p'(2) by simp
  have all: "rest = []" if "L \<le> now_ms w \<or> \<not> has_sentinel (leading @ [10, 71])"
    using that
  proof
    assume buffered: "L \<le> now_ms w"
    show "rest = []"
    proof (cases rest)
      case Nil
      then show ?thesis .
    next
      case (Cons p ps)
      then have "p \<in> set pre" using r(2) by simp
      then have "fst p \<le> now_ms w'" using L buffered r(6) by fastforce
      then have "serial_available w' \<noteq> 0"
        using Cons r(3) by (cases p) (simp add: serial_available_def)
      with r(4) show ?thesis by simp
    qed
  next
    assume first: "\<not> has_sentinel (leading @ [10, 71])"
    have "leading @ [10, 71, 10] = zs @ [10, 71, 10] @ map snd rest"
      using pre r(2) zs by simp
    then have "map snd rest = []" using first by (rule sentinel_first)
    then show "rest = []" by simp
  qed
  have "WaitForReadySignal Timeout_Ms w = Some (True, w')"
    using r(1) by (simp add: WaitForReadySignal_def)
  with r(2-5,7) zs all
  show "\<exists>w' consumed rest zs.
      WaitForReadySignal Timeout_Ms w = Some (True, w') \<and>
      pre = consumed @ rest \<and> rx w' = rest @ later \<and>
      map snd consumed = zs @ [10, 71, 10] \<and>
      serial_available w' = 0 \<and>
      (\<forall>p \<in> set consumed. fst p + ?k \<le> now_ms w') \<and>
      now_ms w' + ?k \<le> caught_up L (length pre) w \<and>
      (L \<le> now_ms w \<or> \<not> has_sentinel (leading @ [10, 71]) \<longrightarrow> rest = [])"
    by blast
next
  assume a: "map snd (rx w) = leading @ [10, 71]"
  from WaitForReadySignal_post [OF assms, of Timeout_Ms]
  obtain b w' where w: "WaitForReadySignal Timeout_Ms w = Some (b, w')"
    and post: "wait_post Timeout_Ms (millis w) (0, 0, 0) w b w'"
    by blast
  have unread: "rx w' \<noteq> []" if b
  proof
    assume "rx w' = []"
    with wait_post_ready_consumed [of Timeout_Ms "millis w" w w'] post that
    obtain zs where "map snd (rx w) = zs @ [10, 71, 10]" by auto
    with a have "(leading @ [10]) @ [71 :: u8] = (zs @ [10, 71]) @ [10]" by simp
    then have "(71 :: u8) = 10" by (simp only: append1_eq_conv)
    then show False by simp
  qed
  have "\<not> b" if buffered: "\<forall>p \<in> set (rx w). fst p \<le> now_ms w"
  proof
    assume b
    with post buffered obtain zs where "map snd (rx w) = zs @ [10, 71, 10]"
      using buffered_ready_consumes_all [of Timeout_Ms "millis w" w w'] by auto
    with a have "(leading @ [10]) @ [71 :: u8] = (zs @ [10, 71]) @ [10]" by simp
    then have "(71 :: u8) = 10" by (simp only: append1_eq_conv)
    then show False by simp
  qed
  with w unread
  show "\<exists>b w'. WaitForReadySignal Timeout_Ms w = Some (b, w') \<and>
      (b \<longrightarrow> rx w' \<noteq> []) \<and> ((\<forall>p \<in> set (rx w). fst p \<le> now_ms w) \<longrightarrow> \<not> b)"
    by blast
next
  assume a: "\<not> has_sentinel (map snd (rx w))"
  from WaitForReadySignal_no_sentinel [OF assms a, of Timeout_Ms]
  show "\<exists>w'. WaitForReadySignal Timeout_Ms w = Some (False, w')" by blast
qed

text \<open>
  The bytes \<^verbatim>\<open>x\<close>, newline, \<^verbatim>\<open>G\<close>, newline arriving 5 to 9 ms after the wait has
  started, and an \<^verbatim>\<open>L\<close> half a second later: success between 10 and 17 ms, with the
  \<^verbatim>\<open>L\<close> left unread. The same bytes in the buffer from the start: success. The stream
  \<^verbatim>\<open>x\<close>, newline, \<^verbatim>\<open>G\<close>, buffered or arriving late: failure.
\<close>

theorem ready_signal_confirmed_after_gap_witness:
  "(\<exists>w'. WaitForReadySignal 100
       \<lparr>now_ms = 0, rx = [(5, 120), (7, 10), (8, 71), (9, 10), (500, 76)], tx = [],
        TimePerCharacter_Ms = 1\<rparr> = Some (True, w') \<and>
       rx w' = [(500, 76)] \<and> serial_available w' = 0 \<and>
       10 \<le> now_ms w' \<and> now_ms w' \<le> 17) \<and>
   (\<exists>w'. WaitForReadySignal 100
       \<lparr>now_ms = 0, rx = [(0, 120), (0, 10), (0, 71), (0, 10), (500, 76)], tx = [],
        TimePerCharacter_Ms = 1\<rparr> = Some (True, w') \<and>
       rx w' = [(500, 76)] \<and> serial_available w' = 0) \<and>
   (\<exists>w'. WaitForReadySignal 100
       \<lparr>now_ms = 0, rx = [(0, 120), (0, 10), (0, 71)], tx = [], TimePerCharacter_Ms = 1\<rparr>
       = Some (False, w')) \<and>
   (\<exists>w'. WaitForReadySignal 100
       \<lparr>now_ms = 0, rx = [(5, 120), (7, 10), (8, 71)], tx = [], TimePerCharacter_Ms = 1\<rparr>
       = Some (False, w'))"
proof -
  let ?a = "\<lparr>now_ms = 0, rx = [(5, 120), (7, 10), (8, 71), (9, 10), (500, 76)], tx = [],
        TimePerCharacter_Ms = 1 :: u8\<rparr>"
  let ?b = "\<lparr>now_ms = 0, rx = [(0, 120), (0, 10), (0, 71), (0, 10), (500, 76)], tx = [],
        TimePerCharacter_Ms = 1 :: u8\<rparr>"
  let ?c = "\<lparr>now_ms = 0, rx = [(0, 120), (0, 10), (0, 71)], tx = [],
        TimePerCharacter_Ms = 1 :: u8\<rparr>"
  let ?d = "\<lparr>now_ms = 0, rx = [(5, 120), (7, 10), (8, 71)], tx = [],
        TimePerCharacter_Ms = 1 :: u8\<rparr>"
  have k: "TimePerCharacter_Ms ?a \<noteq> 0" "TimePerCharacter_Ms ?b \<noteq> 0"
    "TimePerCharacter_Ms ?c \<noteq> 0" "TimePerCharacter_Ms ?d \<noteq> 0"
    by simp_all
  have a: "\<exists>w'. WaitForReadySignal 100 ?a = Some (True, w') \<and>
       rx w' = [(500, 76)] \<and> serial_available w' = 0 \<and>
       10 \<le> now_ms w' \<and> now_ms w' \<le> 17"
    using ready_signal_confirmed_after_gap [OF k(1),
        of "[(5, 120), (7, 10), (8, 71), (9, 10)]" "[(500, 76)]" "[120]" 9 100]
    by (auto simp add: caught_up_def)
  have b: "\<exists>w'. WaitForReadySignal 100 ?b = Some (True, w') \<and>
       rx w' = [(500, 76)] \<and> serial_available w' = 0"
    using ready_signal_confirmed_after_gap [OF k(2),
        of "[(0, 120), (0, 10), (0, 71), (0, 10)]" "[(500, 76)]" "[120]" 0 100]
    by (auto simp add: caught_up_def)
  have c: "\<exists>w'. WaitForReadySignal 100 ?c = Some (False, w')"
    using ready_signal_confirmed_after_gap [OF k(3), of _ _ "[120]"]
    by auto
  have d: "\<exists>w'. WaitForReadySignal 100 ?d = Some (False, w')"
    using ready_signal_confirmed_after_gap [OF k(4)] by auto
  from a b c d show ?thesis by blast
qed

text \<open>
  C6, as the code has it. When the byte read completes the sentinel (the window held
  \<^verbatim>\<open>'G'\<close> and newline in \<^verbatim>\<open>Chars[0]\<close> and \<^verbatim>\<open>Chars[1]\<close>, and a newline is read) but a
  byte is available after one delay, the wait does not return: it goes on after a second
  delay, from the stream behind the byte read, and with the window left as it is, holding
  the sentinel. Nothing clears \<^verbatim>\<open>Chars\<close>.
\<close>

theorem false_match_scans_on_with_window_kept:
  assumes "GetTimePassed_Ms StartTime_Ms 0 w < ucast Timeout_Ms"
    and "serial_available w \<noteq> 0"
    and "serial_read w = (10, w1)"
    and "serial_available (delay (unat (TimePerCharacter_Ms w1)) w1) \<noteq> 0"
  shows "WaitLoop Timeout_Ms StartTime_Ms (71, 10, c2) w =
     WaitLoop Timeout_Ms StartTime_Ms (10, 71, 10)
       (delay (unat (TimePerCharacter_Ms w1)) (delay (unat (TimePerCharacter_Ms w1)) w1))"
  using assms by (subst WaitLoop.simps) (simp add: delay_def)

theorem false_match_scans_on_with_window_kept_witness:
  "GetTimePassed_Ms 0 0
     \<lparr>now_ms = 2, rx = [(0, 10), (0, 71), (0, 10)], tx = [], TimePerCharacter_Ms = 1\<rparr>
     < ucast (20 :: u16) \<and>
   serial_available
     \<lparr>now_ms = 2, rx = [(0, 10), (0, 71), (0, 10)], tx = [], TimePerCharacter_Ms = 1\<rparr> \<noteq> 0 \<and>
   WaitLoop 20 0 (71, 10, 0)
     \<lparr>now_ms = 2, rx = [(0, 10), (0, 71), (0, 10)], tx = [], TimePerCharacter_Ms = 1\<rparr> =
   WaitLoop 20 0 (10, 71, 10)
     \<lparr>now_ms = 4, rx = [(0, 71), (0, 10)], tx = [], TimePerCharacter_Ms = 1\<rparr>"
proof -
  let ?w = "\<lparr>now_ms = 2, rx = [(0, 10), (0, 71), (0, 10)], tx = [],
        TimePerCharacter_Ms = 1 :: u8\<rparr>"
  let ?w1 = "\<lparr>now_ms = 2, rx = [(0, 71), (0, 10)], tx = [], TimePerCharacter_Ms = 1 :: u8\<rparr>"
  have h1: "GetTimePassed_Ms 0 0 ?w < ucast (20 :: u16)"
    by (simp add: GetTimePassed_Ms_def millis_def)
  have h2: "serial_available ?w \<noteq> 0" by (simp add: serial_available_def)
  have h3: "serial_read ?w = (10, ?w1)" by (simp add: serial_read_def)
  have h4: "serial_available (delay (unat (TimePerCharacter_Ms ?w1)) ?w1) \<noteq> 0"
    by (simp add: serial_available_def delay_def)
  show ?thesis
    using h1 h2 false_match_scans_on_with_window_kept [OF h1 h2 h3 h4, of 0]
    by (simp add: delay_def)
qed

text \<open>
  The window is not cleared: on the buffered stream newline, \<^verbatim>\<open>G\<close>, newline, \<^verbatim>\<open>G\<close>,
  newline the third byte is a false match. The wait goes on at 4 ms with the window
  kept and succeeds two bytes later, the newline of the false match serving as the first
  byte of the sentinel. From the same point with a cleared window it would time out.
\<close>

theorem false_match_window_not_cleared:
  "WaitForReadySignal 20
     \<lparr>now_ms = 0, rx = [(0, 10), (0, 71), (0, 10), (0, 71), (0, 10)], tx = [],
      TimePerCharacter_Ms = 1\<rparr> =
     Some (True, \<lparr>now_ms = 6, rx = [], tx = [], TimePerCharacter_Ms = 1\<rparr>) \<and>
   WaitLoop 20 0 (10, 71, 10)
     \<lparr>now_ms = 4, rx = [(0, 71), (0, 10)], tx = [], TimePerCharacter_Ms = 1\<rparr> =
     Some (True, \<lparr>now_ms = 6, rx = [], tx = [], TimePerCharacter_Ms = 1\<rparr>) \<and>
   WaitLoop 20 0 (0, 0, 0)
     \<lparr>now_ms = 4, rx = [(0, 71), (0, 10)], tx = [], TimePerCharacter_Ms = 1\<rparr> =
     Some (False, \<lparr>now_ms = 20, rx = [], tx = [], TimePerCharacter_Ms = 1\<rparr>)"
  by (simp add: WaitForReadySignal_def wait_eval)

text \<open>
  C7, as the code has it. Once the link is set up (\<^verbatim>\<open>TimePerCharacter_Ms\<close> is not 0)
  \<^verbatim>\<open>SendCommand\<close> returns, whatever the stream. With no byte available on entry it
  returns less than two delays after \<^verbatim>\<open>Timeout_Ms\<close>. With a byte available it returns
  less than \<^verbatim>\<open>Motorboard_PrintHelpMaxTime_Ms\<close> plus \<^verbatim>\<open>Timeout_Ms\<close> plus four delays
  after the call, and when its first wait does not confirm the ready signal it fails
  less than two delays after the 4000 ms of \<^verbatim>\<open>Motorboard_PrintHelpMaxTime_Ms\<close>. On a
  stream without the sentinel it fails less than one delay after the timeout that
  applies.
\<close>

theorem SendCommand_failure_time_bound:
  assumes "TimePerCharacter_Ms w \<noteq> 0"
  shows "\<exists>b w'. SendCommand Commands Timeout_Ms w = Some (b, w') \<and>
     (serial_available w = 0 \<longrightarrow>
        now_ms w' < now_ms w + unat Timeout_Ms + 2 * unat (TimePerCharacter_Ms w)) \<and>
     (serial_available w \<noteq> 0 \<longrightarrow>
        now_ms w' < now_ms w + unat Motorboard_PrintHelpMaxTime_Ms + unat Timeout_Ms
          + 4 * unat (TimePerCharacter_Ms w) \<and>
        ((\<forall>w1. WaitForReadySignal Motorboard_PrintHelpMaxTime_Ms w \<noteq> Some (True, w1)) \<longrightarrow>
           \<not> b \<and>
           now_ms w' < now_ms w + unat Motorboard_PrintHelpMaxTime_Ms
             + 2 * unat (TimePerCharacter_Ms w))) \<and>
     (\<not> has_sentinel (map snd (rx w)) \<longrightarrow>
        \<not> b \<and>
        now_ms w' < now_ms w
          + (if serial_available w = 0 then unat Timeout_Ms
             else unat Motorboard_PrintHelpMaxTime_Ms)
          + unat (TimePerCharacter_Ms w))"
proof (cases "serial_available w = 0")
  case True
  let ?w2 = "serial_write Commands w"
  have k: "TimePerCharacter_Ms ?w2 \<noteq> 0" using assms by simp
  from WaitForReadySignal_post [OF k, of Timeout_Ms]
  obtain b w' where w: "WaitForReadySignal Timeout_Ms ?w2 = Some (b, w')"
    and post: "wait_post Timeout_Ms (millis ?w2) (0, 0, 0) ?w2 b w'"
    by blast
  have send: "SendCommand Commands Timeout_Ms w = Some (b, w')"
    using True w by (simp add: SendCommand_def)
  have two: "now_ms w' < now_ms w + unat Timeout_Ms + 2 * unat (TimePerCharacter_Ms w)"
    using wait_post_bound [OF post k] by simp
  have one: "\<not> b \<and> now_ms w' < now_ms w + unat Timeout_Ms + unat (TimePerCharacter_Ms w)"
    if "\<not> has_sentinel (map snd (rx w))"
  proof -
    have "\<not> has_sentinel (map snd (rx ?w2))" using that by simp
    from WaitForReadySignal_no_sentinel [OF k this, of Timeout_Ms] w
    show ?thesis by auto
  qed
  from send two one True show ?thesis by auto
next
  case False
  let ?G = Motorboard_PrintHelpMaxTime_Ms
  from WaitForReadySignal_post [OF assms, of ?G]
  obtain g w1 where w: "WaitForReadySignal ?G w = Some (g, w1)"
    and post: "wait_post ?G (millis w) (0, 0, 0) w g w1"
    by blast
  have grace: "now_ms w1 < now_ms w + unat ?G + 2 * unat (TimePerCharacter_Ms w)"
    using wait_post_bound [OF post assms] by simp
  have one: "\<not> g \<and> now_ms w1 < now_ms w + unat ?G + unat (TimePerCharacter_Ms w)"
    if "\<not> has_sentinel (map snd (rx w))"
    using WaitForReadySignal_no_sentinel [OF assms that, of ?G] w by auto
  show ?thesis
  proof (cases g)
    case unconfirmed: False
    then have send: "SendCommand Commands Timeout_Ms w = Some (False, w1)"
      using False w by (simp add: SendCommand_def)
    from send grace one False show ?thesis by auto
  next
    case True
    let ?w2 = "serial_write Commands w1"
    have same: "TimePerCharacter_Ms w1 = TimePerCharacter_Ms w"
      using post by (simp add: wait_post_def)
    then have k: "TimePerCharacter_Ms ?w2 \<noteq> 0" using assms by simp
    from WaitForReadySignal_post [OF k, of Timeout_Ms]
    obtain b w' where w2: "WaitForReadySignal Timeout_Ms ?w2 = Some (b, w')"
      and post2: "wait_post Timeout_Ms (millis ?w2) (0, 0, 0) ?w2 b w'"
      by blast
    have send: "SendCommand Commands Timeout_Ms w = Some (b, w')"
      using False w True w2 by (simp add: SendCommand_def)
    have "now_ms w' < now_ms w1 + unat Timeout_Ms + 2 * unat (TimePerCharacter_Ms w)"
      using wait_post_bound [OF post2 k] same by simp
    with grace have four: "now_ms w' < now_ms w + unat ?G + unat Timeout_Ms
        + 4 * unat (TimePerCharacter_Ms w)"
      by simp
    from send four one True w False show ?thesis by auto
  qed
qed

text \<open>
  The bound at work: a false match in the last pass (timeout 35 ms, delay 10 ms), a
  byte waiting on entry, and a silent board (timeout 100 ms, delay 1 ms).
\<close>

theorem SendCommand_failure_time_bound_witness:
  "(\<exists>b w'. SendCommand [32] 35
       \<lparr>now_ms = 0, rx = [(1, 10), (2, 71), (3, 10), (4, 120)], tx = [],
        TimePerCharacter_Ms = 10\<rparr> = Some (b, w') \<and> now_ms w' < 55) \<and>
   (\<exists>w'. SendCommand [32] 100 \<lparr>now_ms = 0, rx = [(0, 120)], tx = [], TimePerCharacter_Ms = 1\<rparr>
       = Some (False, w') \<and> now_ms w' < 4001) \<and>
   (\<exists>w'. SendCommand [32] 100 \<lparr>now_ms = 0, rx = [], tx = [], TimePerCharacter_Ms = 1\<rparr>
       = Some (False, w') \<and> now_ms w' < 101)"
proof -
  let ?a = "\<lparr>now_ms = 0, rx = [(1, 10), (2, 71), (3, 10), (4, 120)], tx = [],
        TimePerCharacter_Ms = 10 :: u8\<rparr>"
  let ?b = "\<lparr>now_ms = 0, rx = [(0, 120)], tx = [], TimePerCharacter_Ms = 1 :: u8\<rparr>"
  let ?c = "\<lparr>now_ms = 0, rx = [], tx = [], TimePerCharacter_Ms = 1 :: u8\<rparr>"
  have a1: "TimePerCharacter_Ms ?a \<noteq> 0" and a2: "serial_available ?a = 0"
    by (simp_all add: serial_available_def)
  have b1: "TimePerCharacter_Ms ?b \<noteq> 0" and b2: "serial_available ?b \<noteq> 0"
    and b3: "\<not> has_sentinel (map snd (rx ?b))"
    by (simp_all add: serial_available_def)
  have c1: "TimePerCharacter_Ms ?c \<noteq> 0" and c2: "serial_available ?c = 0"
    and c3: "\<not> has_sentinel (map snd (rx ?c))"
    by (simp_all add: serial_available_def)
  have "\<exists>b w'. SendCommand [32] 35 ?a = Some (b, w') \<and> now_ms w' < 55"
    using SendCommand_failure_time_bound [OF a1, of "[32]" 35] a2 by auto
  moreover have "\<exists>w'. SendCommand [32] 100 ?b = Some (False, w') \<and> now_ms w' < 4001"
    using SendCommand_failure_time_bound [OF b1, of "[32]" 100] b2 b3
    by (auto simp add: Motorboard_PrintHelpMaxTime_Ms_def)
  moreover have "\<exists>w'. SendCommand [32] 100 ?c = Some (False, w') \<and> now_ms w' < 101"
    using SendCommand_failure_time_bound [OF c1, of "[32]" 100] c2 c3 by auto
  ultimately show ?thesis by blast
qed

text \<open>
  Two runs that fail later than the timeout plus one delay. With a delay of 10 ms and
  a timeout of 35 ms, the bytes newline, \<^verbatim>\<open>G\<close>, newline, \<^verbatim>\<open>x\<close> arrive after the call;
  the pass that starts at 30 ms reads the second newline, waits, finds the \<^verbatim>\<open>x\<close>, waits
  again, and the call returns at 50 ms. With a byte already waiting on entry, a delay of
  1 ms and a timeout of 100 ms, the call returns at 4000 ms, and the command is not sent.
\<close>

theorem SendCommand_later_than_timeout_plus_delay:
  "SendCommand [32] 35
     \<lparr>now_ms = 0, rx = [(1, 10), (2, 71), (3, 10), (4, 120)], tx = [],
      TimePerCharacter_Ms = 10\<rparr> =
     Some (False, \<lparr>now_ms = 50, rx = [(4, 120)], tx = [32], TimePerCharacter_Ms = 10\<rparr>) \<and>
   SendCommand [32] 100
     \<lparr>now_ms = 0, rx = [(0, 120)], tx = [], TimePerCharacter_Ms = 1\<rparr> =
     Some (False, \<lparr>now_ms = 4000, rx = [], tx = [], TimePerCharacter_Ms = 1\<rparr>)"
proof -
  have "SendCommand [32] 35
     \<lparr>now_ms = 0, rx = [(1, 10), (2, 71), (3, 10), (4, 120)], tx = [],
      TimePerCharacter_Ms = 10\<rparr> =
     Some (False, \<lparr>now_ms = 50, rx = [(4, 120)], tx = [32], TimePerCharacter_Ms = 10\<rparr>)"
    by (simp add: SendCommand_def WaitForReadySignal_def serial_write_def wait_eval)
  moreover have "SendCommand [32] 100
     \<lparr>now_ms = 0, rx = [(0, 120)], tx = [], TimePerCharacter_Ms = 1\<rparr> =
     Some (False, \<lparr>now_ms = 4000, rx = [], tx = [], TimePerCharacter_Ms = 1\<rparr>)"
    by (simp add: SendCommand_def grace_wait_junk_byte serial_available_def)
  ultimately show ?thesis by simp
qed

text \<open>
  C8. The division of \<^verbatim>\<open>DetectPing_Ms\<close> is not guarded. On a board that stays silent
  the first probe times out after 5000 ms, the loop breaks with
  \<^verbatim>\<open>NumMeasurementsDone = 0\<close>, and the function divides by zero.
\<close>

theorem DetectPing_Ms_divides_by_zero:
  "DetectPing_Ms 5 \<lparr>now_ms = 0, rx = [], tx = [], TimePerCharacter_Ms = 1\<rparr> =
   Some (Inl DivisionByZero, \<lparr>now_ms = 5000, rx = [], tx = [32], TimePerCharacter_Ms = 1\<rparr>)"
proof -
  let ?w = "\<lparr>now_ms = 0, rx = [], tx = [], TimePerCharacter_Ms = 1 :: u8\<rparr>"
  let ?w' = "\<lparr>now_ms = 5000, rx = [], tx = [32], TimePerCharacter_Ms = 1 :: u8\<rparr>"
  have "SendCommand [32] 5000 ?w = Some (False, ?w')"
    by (simp add: SendCommand_def serial_available_def serial_write_def wait_silent_5000)
  then have "SendCommand_Time_Ms [32] ?w = Some ((False, 5000), ?w')"
    by (simp add: SendCommand_Time_Ms_def GetTimePassed_Ms_def millis_def)
  then have "DetectPing_loop 5 0 0 ?w = Some (0, 0, ?w')"
    by (subst DetectPing_loop.simps) simp
  then show ?thesis by (simp add: DetectPing_Ms_def)
qed

text \<open>
  C10. When a byte is available as \<^verbatim>\<open>SendCommand\<close> is called and the wait of
  \<^verbatim>\<open>Motorboard_PrintHelpMaxTime_Ms\<close> does not confirm the ready signal, the call returns
  failure in the state that wait ended in, and nothing has been written to the board.
\<close>

theorem SendCommand_unconfirmed_grace_writes_nothing:
  assumes "TimePerCharacter_Ms w \<noteq> 0"
    and "serial_available w \<noteq> 0"
    and "\<forall>w1. WaitForReadySignal Motorboard_PrintHelpMaxTime_Ms w \<noteq> Some (True, w1)"
  shows "\<exists>w1. WaitForReadySignal Motorboard_PrintHelpMaxTime_Ms w = Some (False, w1) \<and>
      SendCommand Commands Timeout_Ms w = Some (False, w1) \<and> tx w1 = tx w"
proof -
  from WaitForReadySignal_post [OF assms(1), of Motorboard_PrintHelpMaxTime_Ms]
  obtain b w1 where w: "WaitForReadySignal Motorboard_PrintHelpMaxTime_Ms w = Some (b, w1)"
    and post: "wait_post Motorboard_PrintHelpMaxTime_Ms (millis w) (0, 0, 0) w b w1"
    by blast
  from w assms(3) have "\<not> b" by auto
  moreover from post have "tx w1 = tx w" by (simp add: wait_post_def)
  ultimately show ?thesis
    using w assms(2) by (simp add: SendCommand_def)
qed

theorem SendCommand_unconfirmed_grace_writes_nothing_witness:
  "serial_available \<lparr>now_ms = 0, rx = [(0, 120)], tx = [], TimePerCharacter_Ms = 1\<rparr> \<noteq> 0 \<and>
   (\<exists>w1. WaitForReadySignal Motorboard_PrintHelpMaxTime_Ms
        \<lparr>now_ms = 0, rx = [(0, 120)], tx = [], TimePerCharacter_Ms = 1\<rparr> = Some (False, w1) \<and>
      SendCommand [76, 32, 48, 32] 5000
        \<lparr>now_ms = 0, rx = [(0, 120)], tx = [], TimePerCharacter_Ms = 1\<rparr> = Some (False, w1) \<and>
      tx w1 = [])"
proof -
  let ?w = "\<lparr>now_ms = 0, rx = [(0, 120)], tx = [], TimePerCharacter_Ms = 1 :: u8\<rparr>"
  have h1: "TimePerCharacter_Ms ?w \<noteq> 0" by simp
  have h2: "serial_available ?w \<noteq> 0" by (simp add: serial_available_def)
  have h3: "\<forall>w1. WaitForReadySignal Motorboard_PrintHelpMaxTime_Ms ?w \<noteq> Some (True, w1)"
    by (simp add: grace_wait_junk_byte)
  show ?thesis
    using h2 SendCommand_unconfirmed_grace_writes_nothing [OF h1 h2 h3, of "[76, 32, 48, 32]" 5000]
    by simp
qed

subsection \<open>The self-test sweep\<close>

lemma HardwareMotorsTest_commands:
  "HardwareMotorsTest sine =
     map (\<lambda>Angle. (MotorPower_Pc sine Angle, MotorPower_Pc sine Angle, 66))
       [0, 30, 60, 90, 120, 150, 180, 210, 240, 270, 300, 330, 360]"
  by (simp add: HardwareMotorsTest_def HardwareMotorsTest_loop.simps Let_def NumAnglesInCircle_def AngleIncerement_def
      NumCommands_def CommandDuration_Ms_def TestDuration_Ms_def)

lemma trunc_bounds:
  assumes "- 101 < x" and "x < 101"
  shows "- 100 \<le> trunc_toward_zero x \<and> trunc_toward_zero x \<le> 100"
proof (cases "0 \<le> x")
  case True
  then have "\<lfloor>x\<rfloor> \<le> 100" using assms(2) by (simp add: floor_le_iff)
  moreover have "0 \<le> \<lfloor>x\<rfloor>" using True by simp
  ultimately show ?thesis using True by (simp add: trunc_toward_zero_def)
next
  case False
  then have "- 100 \<le> \<lceil>x\<rceil>" using assms(1) by (simp add: le_ceiling_iff)
  moreover have "\<lceil>x\<rceil> \<le> 0" using False by (simp add: ceiling_le_iff)
  ultimately show ?thesis using False by (simp add: trunc_toward_zero_def)
qed

lemma sin_pi_plus: "sin (pi + x) = - sin x"
  by (simp add: sin_add)

lemma sin_two_pi_minus: "sin (2 * pi - x) = - sin x"
  by (simp add: sin_diff)

lemma trunc_floor:
  "0 \<le> x \<Longrightarrow> of_int n \<le> x \<Longrightarrow> x < of_int n + 1 \<Longrightarrow> trunc_toward_zero x = n"
  unfolding trunc_toward_zero_def by (simp add: floor_eq_iff)

lemma trunc_ceiling:
  "x \<le> 0 \<Longrightarrow> of_int n - 1 < x \<Longrightarrow> x \<le> of_int n \<Longrightarrow> trunc_toward_zero x = n"
  unfolding trunc_toward_zero_def by (auto simp add: ceiling_eq_iff floor_eq_iff)

lemma trunc_close: "\<bar>of_int (trunc_toward_zero x) - x\<bar> < 1"
  unfolding trunc_toward_zero_def by (auto simp add: abs_if) linarith+

lemma sqrt3_bounds: "173 / 100 < sqrt 3" "sqrt 3 < 1733 / 1000"
proof -
  have "(173 / 100) ^ 2 < (3 :: real)" by (simp add: power2_eq_square)
  then show "173 / 100 < sqrt 3" by (rule real_less_rsqrt)
  have "(3 :: real) < (1733 / 1000) ^ 2" by (simp add: power2_eq_square)
  then show "sqrt 3 < 1733 / 1000" by (intro real_less_lsqrt) simp_all
qed

lemma exact_sine_values:
  "exact_sine 0 = 0" "exact_sine 30 = 1 / 2" "exact_sine 60 = sqrt 3 / 2"
  "exact_sine 90 = 1" "exact_sine 120 = sqrt 3 / 2" "exact_sine 150 = 1 / 2"
  "exact_sine 180 = 0" "exact_sine 210 = - (1 / 2)" "exact_sine 240 = - (sqrt 3 / 2)"
  "exact_sine 270 = - 1" "exact_sine 300 = - (sqrt 3 / 2)" "exact_sine 330 = - (1 / 2)"
  "exact_sine 360 = 0"
proof -
  have rad: "Angle_Rad 30 = pi / 6" "Angle_Rad 60 = pi / 3" "Angle_Rad 90 = pi / 2"
    "Angle_Rad 120 = pi - pi / 3" "Angle_Rad 150 = pi - pi / 6" "Angle_Rad 180 = pi"
    "Angle_Rad 210 = pi + pi / 6" "Angle_Rad 240 = pi + pi / 3" "Angle_Rad 270 = pi + pi / 2"
    "Angle_Rad 300 = 2 * pi - pi / 3" "Angle_Rad 330 = 2 * pi - pi / 6"
    "Angle_Rad 360 = 2 * pi"
    by (simp_all add: Angle_Rad_def NumAnglesInCircle_def)
  show "exact_sine 0 = 0" by (simp add: exact_sine_def Angle_Rad_def)
  show "exact_sine 30 = 1 / 2" unfolding exact_sine_def rad by (rule sin_30)
  show "exact_sine 60 = sqrt 3 / 2" unfolding exact_sine_def rad by (rule sin_60)
  show "exact_sine 90 = 1" unfolding exact_sine_def rad by (rule sin_pi_half)
  show "exact_sine 120 = sqrt 3 / 2" unfolding exact_sine_def rad sin_pi_minus by (rule sin_60)
  show "exact_sine 150 = 1 / 2" unfolding exact_sine_def rad sin_pi_minus by (rule sin_30)
  show "exact_sine 180 = 0" unfolding exact_sine_def rad by (rule sin_pi)
  show "exact_sine 210 = - (1 / 2)" unfolding exact_sine_def rad sin_pi_plus sin_30 ..
  show "exact_sine 240 = - (sqrt 3 / 2)" unfolding exact_sine_def rad sin_pi_plus sin_60 ..
  show "exact_sine 270 = - 1" unfolding exact_sine_def rad sin_pi_plus sin_pi_half ..
  show "exact_sine 300 = - (sqrt 3 / 2)"
    unfolding exact_sine_def rad sin_two_pi_minus sin_60 ..
  show "exact_sine 330 = - (1 / 2)" unfolding exact_sine_def rad sin_two_pi_minus sin_30 ..
  show "exact_sine 360 = 0" unfolding exact_sine_def rad by (rule sin_two_pi)
qed

text \<open>The power computed from a value \<open>s\<close> of the sine, by the hundredth it lies in.\<close>

lemma power_zero:
  assumes "- 1 / 100 < s" and "s < 1 / 100"
  shows "trunc_toward_zero (100 * s) = 0"
proof (cases "0 \<le> s")
  case True
  then show ?thesis using assms by (intro trunc_floor) simp_all
next
  case False
  then show ?thesis using assms by (intro trunc_ceiling) simp_all
qed

lemma power_positive:
  assumes "of_int n / 100 \<le> s" and "s < (of_int n + 1) / 100" and "0 \<le> n"
  shows "trunc_toward_zero (100 * s) = n"
proof -
  have "0 \<le> s"
  proof -
    have "(0 :: real) \<le> of_int n / 100" using assms(3) by simp
    with assms(1) show ?thesis by linarith
  qed
  then show ?thesis using assms(1,2) by (intro trunc_floor) (simp_all add: field_simps)
qed

lemma power_negative:
  assumes "(of_int n - 1) / 100 < s" and "s \<le> of_int n / 100" and "n \<le> 0"
  shows "trunc_toward_zero (100 * s) = n"
proof -
  have "s \<le> 0"
  proof -
    have "of_int n / 100 \<le> (0 :: real)" using assms(3) by simp
    with assms(2) show ?thesis by linarith
  qed
  then show ?thesis using assms(1,2) by (intro trunc_ceiling) (simp_all add: field_simps)
qed

lemma power_two_positive:
  assumes "(of_int n - 1) / 100 \<le> s" and "s < (of_int n + 1) / 100" and "1 \<le> n"
  shows "trunc_toward_zero (100 * s) = n - 1 \<or> trunc_toward_zero (100 * s) = n"
proof (cases "s < of_int n / 100")
  case True
  have "trunc_toward_zero (100 * s) = n - 1"
    using assms True by (intro power_positive) simp_all
  then show ?thesis by simp
next
  case False
  have "trunc_toward_zero (100 * s) = n"
    using assms False by (intro power_positive) simp_all
  then show ?thesis by simp
qed

lemma power_two_negative:
  assumes "(of_int n - 1) / 100 < s" and "s \<le> (of_int n + 1) / 100" and "n \<le> - 1"
  shows "trunc_toward_zero (100 * s) = n \<or> trunc_toward_zero (100 * s) = n + 1"
proof (cases "s \<le> of_int n / 100")
  case True
  have "trunc_toward_zero (100 * s) = n"
    using assms True by (intro power_negative) simp_all
  then show ?thesis by simp
next
  case False
  have "trunc_toward_zero (100 * s) = n + 1"
    using assms False by (intro power_negative) simp_all
  then show ?thesis by simp
qed

lemma MotorPower_Pc_100: "MotorPower_Pc sine Angle = trunc_toward_zero (100 * sine Angle)"
  by (simp add: MotorPower_Pc_def Amplitude_def)

text \<open>The powers of the thirteen commands, for any sine that is accurate.\<close>

lemma accurate_powers:
  assumes "sine_accurate sine"
  shows "MotorPower_Pc sine 0 = 0"
    "MotorPower_Pc sine 30 = 49 \<or> MotorPower_Pc sine 30 = 50"
    "MotorPower_Pc sine 60 = 86"
    "MotorPower_Pc sine 90 = 99 \<or> MotorPower_Pc sine 90 = 100"
    "MotorPower_Pc sine 120 = 86"
    "MotorPower_Pc sine 150 = 49 \<or> MotorPower_Pc sine 150 = 50"
    "MotorPower_Pc sine 180 = 0"
    "MotorPower_Pc sine 210 = - 50 \<or> MotorPower_Pc sine 210 = - 49"
    "MotorPower_Pc sine 240 = - 86"
    "MotorPower_Pc sine 270 = - 100 \<or> MotorPower_Pc sine 270 = - 99"
    "MotorPower_Pc sine 300 = - 86"
    "MotorPower_Pc sine 330 = - 50 \<or> MotorPower_Pc sine 330 = - 49"
    "MotorPower_Pc sine 360 = 0"
proof -
  have acc: "exact_sine Angle - 1 / 1000 \<le> sine Angle \<and> sine Angle \<le> exact_sine Angle + 1 / 1000"
    for Angle
  proof -
    have "\<bar>sine Angle - sin (Angle_Rad Angle)\<bar> \<le> 1 / 1000"
      using assms unfolding sine_accurate_def by blast
    then show ?thesis unfolding exact_sine_def by linarith
  qed
  note s3 = sqrt3_bounds
  show "MotorPower_Pc sine 0 = 0"
    unfolding MotorPower_Pc_100 using acc [of 0] exact_sine_values(1)
    by (intro power_zero) simp_all
  show "MotorPower_Pc sine 180 = 0"
    unfolding MotorPower_Pc_100 using acc [of 180] exact_sine_values(7)
    by (intro power_zero) simp_all
  show "MotorPower_Pc sine 360 = 0"
    unfolding MotorPower_Pc_100 using acc [of 360] exact_sine_values(13)
    by (intro power_zero) simp_all
  show "MotorPower_Pc sine 60 = 86"
    unfolding MotorPower_Pc_100 using acc [of 60] exact_sine_values(3) s3
    by (intro power_positive) simp_all
  show "MotorPower_Pc sine 120 = 86"
    unfolding MotorPower_Pc_100 using acc [of 120] exact_sine_values(5) s3
    by (intro power_positive) simp_all
  show "MotorPower_Pc sine 240 = - 86"
    unfolding MotorPower_Pc_100 using acc [of 240] exact_sine_values(9) s3
    by (intro power_negative) simp_all
  show "MotorPower_Pc sine 300 = - 86"
    unfolding MotorPower_Pc_100 using acc [of 300] exact_sine_values(11) s3
    by (intro power_negative) simp_all
  show "MotorPower_Pc sine 30 = 49 \<or> MotorPower_Pc sine 30 = 50"
    unfolding MotorPower_Pc_100
    using acc [of 30] exact_sine_values(2) power_two_positive [of 50 "sine 30"] by simp
  show "MotorPower_Pc sine 150 = 49 \<or> MotorPower_Pc sine 150 = 50"
    unfolding MotorPower_Pc_100
    using acc [of 150] exact_sine_values(6) power_two_positive [of 50 "sine 150"] by simp
  show "MotorPower_Pc sine 90 = 99 \<or> MotorPower_Pc sine 90 = 100"
    unfolding MotorPower_Pc_100
    using acc [of 90] exact_sine_values(4) power_two_positive [of 100 "sine 90"] by simp
  show "MotorPower_Pc sine 210 = - 50 \<or> MotorPower_Pc sine 210 = - 49"
    unfolding MotorPower_Pc_100
    using acc [of 210] exact_sine_values(8) power_two_negative [of "- 50" "sine 210"] by simp
  show "MotorPower_Pc sine 330 = - 50 \<or> MotorPower_Pc sine 330 = - 49"
    unfolding MotorPower_Pc_100
    using acc [of 330] exact_sine_values(12) power_two_negative [of "- 50" "sine 330"] by simp
  show "MotorPower_Pc sine 270 = - 100 \<or> MotorPower_Pc sine 270 = - 99"
    unfolding MotorPower_Pc_100
    using acc [of 270] exact_sine_values(10) power_two_negative [of "- 100" "sine 270"] by simp
qed

lemma accurate_power_close:
  assumes "sine_accurate sine"
  shows "\<bar>of_int (MotorPower_Pc sine Angle) - 100 * sin (Angle_Rad Angle)\<bar> < 11 / 10"
proof -
  have "\<bar>sine Angle - sin (Angle_Rad Angle)\<bar> \<le> 1 / 1000"
    using assms unfolding sine_accurate_def by blast
  moreover have "\<bar>of_int (trunc_toward_zero (100 * sine Angle)) - 100 * sine Angle\<bar> < 1"
    by (rule trunc_close)
  ultimately show ?thesis unfolding MotorPower_Pc_100 by linarith
qed

lemma accurate_power_range:
  assumes "sine_accurate sine"
  shows "- 100 \<le> MotorPower_Pc sine Angle \<and> MotorPower_Pc sine Angle \<le> 100"
proof -
  have "\<bar>sine Angle - sin (Angle_Rad Angle)\<bar> \<le> 1 / 1000"
    using assms unfolding sine_accurate_def by blast
  moreover have "- 1 \<le> sin (Angle_Rad Angle)" "sin (Angle_Rad Angle) \<le> 1"
    by simp_all
  ultimately have "- 1001 / 1000 \<le> sine Angle" "sine Angle \<le> 1001 / 1000"
    by linarith+
  then have "- 101 < real (unat Amplitude) * sine Angle"
    "real (unat Amplitude) * sine Angle < 101"
    by (simp_all add: Amplitude_def)
  then show ?thesis unfolding MotorPower_Pc_def by (rule trunc_bounds)
qed

lemma short_sine_accurate: "sine_accurate short_sine"
proof -
  have "\<bar>short_sine Angle - sin (Angle_Rad Angle)\<bar> \<le> 1 / 1000" for Angle
  proof -
    have "short_sine Angle - sin (Angle_Rad Angle) = - (sin (Angle_Rad Angle) / 1048576)"
      by (simp add: short_sine_def algebra_simps)
    then show ?thesis
      using sin_le_one [of "Angle_Rad Angle"] sin_ge_minus_one [of "Angle_Rad Angle"]
      by linarith
  qed
  then show ?thesis by (simp add: sine_accurate_def)
qed

lemma exact_sine_accurate: "sine_accurate exact_sine"
  by (simp add: sine_accurate_def exact_sine_def)

lemma short_sine_exact: "short_sine Angle = (1 - 1 / 2 ^ 20) * exact_sine Angle"
  by (simp add: short_sine_def exact_sine_def)

lemma exact_powers:
  "map (MotorPower_Pc exact_sine) [0, 30, 60, 90, 120, 150, 180, 210, 240, 270, 300, 330, 360]
   = [0, 50, 86, 100, 86, 50, 0, - 50, - 86, - 100, - 86, - 50, 0]"
proof -
  have "MotorPower_Pc exact_sine 30 = 50" "MotorPower_Pc exact_sine 150 = 50"
    "MotorPower_Pc exact_sine 90 = 100" "MotorPower_Pc exact_sine 210 = - 50"
    "MotorPower_Pc exact_sine 330 = - 50" "MotorPower_Pc exact_sine 270 = - 100"
    by (simp_all add: MotorPower_Pc_100 exact_sine_values trunc_toward_zero_def)
  then show ?thesis using accurate_powers [OF exact_sine_accurate] by simp
qed

lemma short_powers:
  "map (MotorPower_Pc short_sine) [0, 30, 60, 90, 120, 150, 180, 210, 240, 270, 300, 330, 360]
   = [0, 49, 86, 99, 86, 49, 0, - 49, - 86, - 99, - 86, - 49, 0]"
proof -
  have "MotorPower_Pc short_sine 30 = 49" "MotorPower_Pc short_sine 150 = 49"
    "MotorPower_Pc short_sine 90 = 99"
    unfolding MotorPower_Pc_100 short_sine_exact exact_sine_values
    by (intro power_positive; simp)+
  moreover have "MotorPower_Pc short_sine 210 = - 49" "MotorPower_Pc short_sine 330 = - 49"
    "MotorPower_Pc short_sine 270 = - 99"
    unfolding MotorPower_Pc_100 short_sine_exact exact_sine_values
    by (intro power_negative; simp)+
  ultimately show ?thesis using accurate_powers [OF short_sine_accurate] by simp
qed

text \<open>
  C9, as the code has it. The self-test issues 13 commands of 66 ms each, for the angles
  0, 30, ..., 360 degrees: one full period of the sine. Each power is \<^verbatim>\<open>Amplitude\<close>
  times the computed sine, cut towards zero. With a sine that is accurate it lies
  within 1.1 of 100 times the mathematical sine and between -100 and 100; it is 0 at 0,
  180 and 360 degrees, 49 or 50 at 30 and 150, 86 at 60 and 120, 99 or 100 at 90,
  -50 or -49 at 210 and 330, -86 at 240 and 300, and -100 or -99 at 270 degrees.
\<close>

theorem self_test_traces_full_sine_period:
  assumes "sine_accurate sine"
  shows "HardwareMotorsTest sine =
       map (\<lambda>Angle. (MotorPower_Pc sine Angle, MotorPower_Pc sine Angle, 66))
         [0, 30, 60, 90, 120, 150, 180, 210, 240, 270, 300, 330, 360] \<and>
     (\<forall>Angle. MotorPower_Pc sine Angle =
        trunc_toward_zero (real (unat Amplitude) * sine Angle) \<and>
        \<bar>of_int (MotorPower_Pc sine Angle) - 100 * sin (Angle_Rad Angle)\<bar> < 11 / 10 \<and>
        - 100 \<le> MotorPower_Pc sine Angle \<and> MotorPower_Pc sine Angle \<le> 100) \<and>
     MotorPower_Pc sine 0 = 0 \<and>
     (MotorPower_Pc sine 30 = 49 \<or> MotorPower_Pc sine 30 = 50) \<and>
     MotorPower_Pc sine 60 = 86 \<and>
     (MotorPower_Pc sine 90 = 99 \<or> MotorPower_Pc sine 90 = 100) \<and>
     MotorPower_Pc sine 120 = 86 \<and>
     (MotorPower_Pc sine 150 = 49 \<or> MotorPower_Pc sine 150 = 50) \<and>
     MotorPower_Pc sine 180 = 0 \<and>
     (MotorPower_Pc sine 210 = - 50 \<or> MotorPower_Pc sine 210 = - 49) \<and>
     MotorPower_Pc sine 240 = - 86 \<and>
     (MotorPower_Pc sine 270 = - 100 \<or> MotorPower_Pc sine 270 = - 99) \<and>
     MotorPower_Pc sine 300 = - 86 \<and>
     (MotorPower_Pc sine 330 = - 50 \<or> MotorPower_Pc sine 330 = - 49) \<and>
     MotorPower_Pc sine 360 = 0"
proof -
  have "\<forall>Angle. MotorPower_Pc sine Angle =
        trunc_toward_zero (real (unat Amplitude) * sine Angle) \<and>
        \<bar>of_int (MotorPower_Pc sine Angle) - 100 * sin (Angle_Rad Angle)\<bar> < 11 / 10 \<and>
        - 100 \<le> MotorPower_Pc sine Angle \<and> MotorPower_Pc sine Angle \<le> 100"
    using accurate_power_close [OF assms] accurate_power_range [OF assms]
    by (simp add: MotorPower_Pc_def)
  with HardwareMotorsTest_commands [of sine] accurate_powers [OF assms]
  show ?thesis by blast
qed

text \<open>
  Two accurate sines and the commands they give: the mathematical sine, and one that
  falls short of it. Where the theorem leaves two values for a power, each one occurs.
\<close>

theorem self_test_traces_full_sine_period_witness:
  "sine_accurate exact_sine \<and>
   HardwareMotorsTest exact_sine =
     map (\<lambda>p. (p, p, 66)) [0, 50, 86, 100, 86, 50, 0, - 50, - 86, - 100, - 86, - 50, 0] \<and>
   sine_accurate short_sine \<and>
   HardwareMotorsTest short_sine =
     map (\<lambda>p. (p, p, 66)) [0, 49, 86, 99, 86, 49, 0, - 49, - 86, - 99, - 86, - 49, 0]"
proof -
  have "HardwareMotorsTest exact_sine =
     map (\<lambda>p. (p, p, 66)) [0, 50, 86, 100, 86, 50, 0, - 50, - 86, - 100, - 86, - 50, 0]"
    using self_test_traces_full_sine_period [OF exact_sine_accurate] exact_powers by simp
  moreover have "HardwareMotorsTest short_sine =
     map (\<lambda>p. (p, p, 66)) [0, 49, 86, 99, 86, 49, 0, - 49, - 86, - 99, - 86, - 49, 0]"
    using self_test_traces_full_sine_period [OF short_sine_accurate] short_powers by simp
  ultimately show ?thesis using exact_sine_accurate short_sine_accurate by simp
qed

text \<open>
  The sweep does not stop at 180 degrees, and its powers are not all non-negative.
  Whatever the sine function, there are 13 commands and the tenth is the one for 270
  degrees; no accurate sine gives it a non-negative power. With the mathematical sine
  the power is -100, with the one that falls short it is -99.
\<close>

theorem self_test_commands_negative_power:
  "(\<forall>sine. length (HardwareMotorsTest sine) = 13 \<and>
      HardwareMotorsTest sine ! 9 = (MotorPower_Pc sine 270, MotorPower_Pc sine 270, 66)) \<and>
   \<not> (\<exists>sine. sine_accurate sine \<and> 0 \<le> MotorPower_Pc sine 270) \<and>
   sine_accurate exact_sine \<and> MotorPower_Pc exact_sine 270 = - 100 \<and>
   sine_accurate short_sine \<and> MotorPower_Pc short_sine 270 = - 99"
proof -
  have "length (HardwareMotorsTest sine) = 13 \<and>
      HardwareMotorsTest sine ! 9 = (MotorPower_Pc sine 270, MotorPower_Pc sine 270, 66)" for sine
    by (simp add: HardwareMotorsTest_commands)
  moreover have "\<not> (\<exists>sine. sine_accurate sine \<and> 0 \<le> MotorPower_Pc sine 270)"
    using accurate_powers(10) by fastforce
  moreover have "MotorPower_Pc exact_sine 270 = - 100" using exact_powers by simp
  moreover have "MotorPower_Pc short_sine 270 = - 99" using short_powers by simp
  ultimately show ?thesis using exact_sine_accurate short_sine_accurate by blast
qed

end
